theory Spec2Isabelle
  imports Main "HOL-Library.Word"
begin

section \<open>Python values\<close>

text \<open>
  A Python \<open>str\<close> is a sequence of Unicode code points; a character is a \<open>str\<close> of
  length one. Code points are natural numbers here, and \<open>str\<close> turns an ASCII literal
  into its code points.
\<close>

type_synonym pystr = "nat list"

definition str :: "string \<Rightarrow> pystr" where
  "str s = map of_char s"

text \<open>
  A \<open>dict\<close> keeps its keys in insertion order. Assigning to a key that is present
  replaces the value in place; assigning to a new key appends the entry. Lookup is
  \<^const>\<open>map_of\<close>, \<open>len\<close> is \<^const>\<open>length\<close>, \<open>items()\<close> is the list itself.
\<close>

type_synonym ('k, 'v) dict = "('k \<times> 'v) list"

fun dict_set :: "'k \<Rightarrow> 'v \<Rightarrow> ('k, 'v) dict \<Rightarrow> ('k, 'v) dict" where
  "dict_set k v [] = [(k, v)]"
| "dict_set k v ((k', v') # d) =
     (if k' = k then (k, v) # d else (k', v') # dict_set k v d)"

definition wf_dict :: "('k, 'v) dict \<Rightarrow> bool" where
  "wf_dict d = distinct (map fst d)"

section \<open>The vocabulary: \<open>char_to_index\<close> and \<open>index_to_char\<close>\<close>

text \<open>
  \<open>enumerate(alphabet, start=1)\<close> pairs the k-th character with \<open>k + 1\<close>; iterating a
  \<open>str\<close> yields one-character strings, which are the keys.
\<close>

definition char_to_index :: "pystr \<Rightarrow> pystr \<Rightarrow> pystr \<Rightarrow> (pystr, int) dict" where
  "char_to_index alphabet start_token end_token =
     (let char_to_idx = [(start_token, 0)];
          char_to_idx = fold (\<lambda>(idx, char). dict_set [char] (int idx))
                          (enumerate 1 alphabet) char_to_idx
      in dict_set end_token (int (length alphabet) + 1) char_to_idx)"

definition index_to_char :: "(pystr, int) dict \<Rightarrow> (int, pystr) dict" where
  "index_to_char char_to_idx = fold (\<lambda>(char, index). dict_set index char) char_to_idx []"

text \<open>
  The assignments \<open>char_to_index\<close> performs, in the order it performs them: the start
  token gets 0, the k-th alphabet character gets \<open>k + 1\<close>, the end token gets
  \<open>len(alphabet) + 1\<close>.
\<close>

definition assignments :: "pystr \<Rightarrow> pystr \<Rightarrow> pystr \<Rightarrow> (pystr \<times> int) list" where
  "assignments alphabet start_token end_token =
     (start_token, 0) # map (\<lambda>(idx, char). ([char], int idx)) (enumerate 1 alphabet)
       @ [(end_token, int (length alphabet) + 1)]"

text \<open>The precondition of the vocabulary: no duplicate and no sentinel in the alphabet.\<close>

definition valid_vocab :: "pystr \<Rightarrow> pystr \<Rightarrow> pystr \<Rightarrow> bool" where
  "valid_vocab alphabet start_token end_token =
     (distinct alphabet \<and> start_token \<noteq> end_token \<and>
      start_token \<notin> set (map (\<lambda>c. [c]) alphabet) \<and>
      end_token \<notin> set (map (\<lambda>c. [c]) alphabet))"

section \<open>The bigram extractor: \<open>load_and_preprocess_data\<close>\<close>

text \<open>
  \<open>str.split()\<close> without arguments cuts a string at runs of whitespace and returns the
  non-empty pieces. Whitespace is what \<open>str.isspace\<close> accepts: the ASCII control
  characters 9 to 13 and 28 to 31, the space, and the Unicode separators.
\<close>

definition isspace :: "nat \<Rightarrow> bool" where
  "isspace c =
     ((9 \<le> c \<and> c \<le> 13) \<or> (28 \<le> c \<and> c \<le> 32) \<or> c = 133 \<or> c = 160 \<or> c = 5760 \<or>
      (8192 \<le> c \<and> c \<le> 8202) \<or> c = 8232 \<or> c = 8233 \<or> c = 8239 \<or> c = 8287 \<or>
      c = 12288)"

fun split_from :: "pystr \<Rightarrow> pystr \<Rightarrow> pystr list" where
  "split_from tok [] = (if tok = [] then [] else [tok])"
| "split_from tok (c # cs) =
     (if isspace c then (if tok = [] then split_from [] cs else tok # split_from [] cs)
      else split_from (tok @ [c]) cs)"

definition split :: "pystr \<Rightarrow> pystr list" where
  "split s = split_from [] s"

text \<open>
  \<open>str.lower\<close> is the runtime's: it follows the case mappings of the Unicode character
  database, which is no part of the repository. The extractor therefore takes the
  lowercasing function as its first argument \<open>lower\<close>, and what is proved of it holds for
  every such function. \<open>str_lower\<close> gives the entries used at concrete inputs: the ASCII
  capitals, and U+0130 (capital I with dot above), whose lowercase form is the two code
  points U+0069 U+0307. No other entry is written out: \<open>str_lower\<close> leaves every other
  code point as it is, which is not what \<open>str.lower\<close> does to the other cased characters,
  and it is applied only to words made of ASCII characters and U+0130.
\<close>

definition lower_char :: "nat \<Rightarrow> pystr" where
  "lower_char c =
     (if 65 \<le> c \<and> c \<le> 90 then [c + 32] else if c = 304 then [105, 775] else [c])"

definition str_lower :: "pystr \<Rightarrow> pystr" where
  "str_lower s = concat (map lower_char s)"

type_synonym bigram = "pystr \<times> pystr"

text \<open>
  The list comprehension over \<open>range(len(processed_word) - 1)\<close>; the range is empty when
  its bound is not positive, as the truncated difference is.
\<close>

definition word_bigrams :: "pystr \<Rightarrow> bigram list" where
  "word_bigrams processed_word =
     map (\<lambda>i. ([processed_word ! i], [processed_word ! (i + 1)]))
       [0 ..< length processed_word - 1]"

text \<open>
  The loop over the lines of the file (\<open>file.read().splitlines()\<close>, the argument
  \<open>lines\<close>); \<open>bigrams\<close> is the list the loop extends.
\<close>

fun load_loop ::
  "(pystr \<Rightarrow> pystr) \<Rightarrow> pystr list \<Rightarrow> pystr \<Rightarrow> pystr \<Rightarrow> bigram list \<Rightarrow> bigram list" where
  "load_loop lower [] start_token end_token bigrams = bigrams"
| "load_loop lower (line # lines) start_token end_token bigrams =
     (case split line of
        [] \<Rightarrow> load_loop lower lines start_token end_token bigrams
      | part # _ \<Rightarrow>
          (let word = lower part;
               processed_word = start_token @ word @ end_token
           in load_loop lower lines start_token end_token
                (bigrams @ word_bigrams processed_word)))"

definition load_and_preprocess_data ::
  "(pystr \<Rightarrow> pystr) \<Rightarrow> pystr list \<Rightarrow> pystr \<Rightarrow> pystr \<Rightarrow> bigram list" where
  "load_and_preprocess_data lower lines start_token end_token =
     load_loop lower lines start_token end_token []"

text \<open>What one line contributes: the bigrams of its padded first word, or nothing.\<close>

definition line_bigrams :: "(pystr \<Rightarrow> pystr) \<Rightarrow> pystr \<Rightarrow> pystr \<Rightarrow> pystr \<Rightarrow> bigram list" where
  "line_bigrams lower start_token end_token line =
     (case split line of
        [] \<Rightarrow> []
      | part # _ \<Rightarrow> word_bigrams (start_token @ lower part @ end_token))"

section \<open>The counting aggregator: \<open>count_bigrams\<close>\<close>

text \<open>
  The table is a tensor of \<open>int32\<close>: a list of rows of 32-bit words, on which \<open>+= 1\<close>
  wraps around. An index \<open>i\<close> into a dimension of size \<open>n\<close> is valid from \<open>-n\<close> to
  \<open>n - 1\<close>, a negative one counting from the end; any other index raises. The one
  error value stands for the exception of the indexing, of whatever kind: the library
  reports an index that does not fit 64 bits differently from one that is merely out of
  range, and nothing here depends on the difference.
\<close>

datatype py_error = IndexError

type_synonym tensor = "32 word list list"

definition zeros :: "nat \<Rightarrow> nat \<Rightarrow> tensor" where
  "zeros r c = replicate r (replicate c 0)"

definition norm_index :: "nat \<Rightarrow> int \<Rightarrow> nat option" where
  "norm_index n i =
     (if 0 \<le> i \<and> i < int n then Some (nat i)
      else if - int n \<le> i \<and> i < 0 then Some (nat (int n + i))
      else None)"

definition tensor_incr :: "tensor \<Rightarrow> int \<Rightarrow> int \<Rightarrow> py_error + tensor" where
  "tensor_incr t idx1 idx2 =
     (case norm_index (length t) idx1 of
        None \<Rightarrow> Inl IndexError
      | Some r \<Rightarrow>
          (case norm_index (length (t ! r)) idx2 of
             None \<Rightarrow> Inl IndexError
           | Some c \<Rightarrow> Inr (t[r := (t ! r)[c := (t ! r) ! c + 1]])))"

text \<open>
  The objects the function works on: the list and the dictionary it is given, and the
  tensor it allocates. The loop body reads the first two and assigns to the third only.
  A raise carries the state it happened in.
\<close>

record count_state =
  bigrams :: "bigram list"
  char_to_idx :: "(pystr, int) dict"
  bigram_counts :: tensor

definition count_body :: "bigram \<Rightarrow> count_state \<Rightarrow> py_error \<times> count_state + count_state" where
  "count_body b s =
     (case b of (char1, char2) \<Rightarrow>
        (case (map_of (char_to_idx s) char1, map_of (char_to_idx s) char2) of
           (Some idx1, Some idx2) \<Rightarrow>
             (case tensor_incr (bigram_counts s) idx1 idx2 of
                Inl e \<Rightarrow> Inl (e, s)
              | Inr t \<Rightarrow> Inr (s\<lparr>bigram_counts := t\<rparr>))
         | _ \<Rightarrow> Inr s))"

text \<open>
  The \<open>for\<close> loop: the list iterator holds a position \<open>i\<close> and stops when it reaches the
  length the list has at that moment.
\<close>

function count_loop :: "nat \<Rightarrow> count_state \<Rightarrow> py_error \<times> count_state + count_state" where
  "count_loop i s =
     (if i < length (bigrams s) then
        (case count_body (bigrams s ! i) s of
           Inl e \<Rightarrow> Inl e
         | Inr s' \<Rightarrow> count_loop (i + 1) s')
      else Inr s)"
  by pat_completeness auto

termination count_loop
  by (relation "measure (\<lambda>(i, s). length (bigrams s) - i)")
     (auto simp: count_body_def split: prod.splits option.splits sum.splits)

definition count_bigrams_run ::
  "bigram list \<Rightarrow> (pystr, int) dict \<Rightarrow> py_error \<times> count_state + count_state" where
  "count_bigrams_run bigram_list mapping =
     (let vocab_size = length mapping
      in count_loop 0
           \<lparr>bigrams = bigram_list, char_to_idx = mapping,
            bigram_counts = zeros vocab_size vocab_size\<rparr>)"

definition count_bigrams :: "bigram list \<Rightarrow> (pystr, int) dict \<Rightarrow> py_error + tensor" where
  "count_bigrams bigram_list mapping =
     (case count_bigrams_run bigram_list mapping of
        Inl (e, _) \<Rightarrow> Inl e
      | Inr s \<Rightarrow> Inr (bigram_counts s))"

text \<open>
  The same run as a relation between the state a call starts in and its outcome, with
  one rule for each path through the loop: the list is exhausted, the bigram has a
  character outside the dictionary, the cell is incremented, the indexing raises. A call
  starts with whatever the state holds for the tensor and allocates the zero table before
  the loop.
\<close>

type_synonym outcome = "py_error \<times> count_state + count_state"

inductive count_exec :: "nat \<Rightarrow> count_state \<Rightarrow> outcome \<Rightarrow> bool" where
  exhausted:
    "\<not> i < length (bigrams s) \<Longrightarrow> count_exec i s (Inr s)"
| skipped:
    "i < length (bigrams s) \<Longrightarrow> bigrams s ! i = (char1, char2) \<Longrightarrow>
     map_of (char_to_idx s) char1 = None \<or> map_of (char_to_idx s) char2 = None \<Longrightarrow>
     count_exec (i + 1) s out \<Longrightarrow> count_exec i s out"
| counted:
    "i < length (bigrams s) \<Longrightarrow> bigrams s ! i = (char1, char2) \<Longrightarrow>
     map_of (char_to_idx s) char1 = Some idx1 \<Longrightarrow> map_of (char_to_idx s) char2 = Some idx2 \<Longrightarrow>
     tensor_incr (bigram_counts s) idx1 idx2 = Inr t \<Longrightarrow>
     count_exec (i + 1) (s\<lparr>bigram_counts := t\<rparr>) out \<Longrightarrow> count_exec i s out"
| raised:
    "i < length (bigrams s) \<Longrightarrow> bigrams s ! i = (char1, char2) \<Longrightarrow>
     map_of (char_to_idx s) char1 = Some idx1 \<Longrightarrow> map_of (char_to_idx s) char2 = Some idx2 \<Longrightarrow>
     tensor_incr (bigram_counts s) idx1 idx2 = Inl e \<Longrightarrow> count_exec i s (Inl (e, s))"

inductive count_bigrams_exec :: "count_state \<Rightarrow> outcome \<Rightarrow> bool" where
  call:
    "vocab_size = length (char_to_idx s) \<Longrightarrow>
     count_exec 0 (s\<lparr>bigram_counts := zeros vocab_size vocab_size\<rparr>) out \<Longrightarrow>
     count_bigrams_exec s out"

code_pred count_exec .
code_pred count_bigrams_exec .

text \<open>
  What the table is measured against: the sum of its cells read as signed numbers, the
  bigrams with both characters in the dictionary, and those among them that address
  the cell \<open>(i, j)\<close> of an \<open>n \<times> n\<close> table.
\<close>

definition tensor_sum :: "tensor \<Rightarrow> int" where
  "tensor_sum t = sum_list (map (\<lambda>row. sum_list (map sint row)) t)"

definition in_vocab :: "(pystr, int) dict \<Rightarrow> bigram \<Rightarrow> bool" where
  "in_vocab mapping b = (map_of mapping (fst b) \<noteq> None \<and> map_of mapping (snd b) \<noteq> None)"

definition hits :: "(pystr, int) dict \<Rightarrow> nat \<Rightarrow> nat \<Rightarrow> nat \<Rightarrow> bigram \<Rightarrow> bool" where
  "hits mapping n i j b =
     (case (map_of mapping (fst b), map_of mapping (snd b)) of
        (Some idx1, Some idx2) \<Rightarrow> norm_index n idx1 = Some i \<and> norm_index n idx2 = Some j
      | _ \<Rightarrow> False)"

text \<open>A table of \<open>n\<close> rows of \<open>n\<close> cells.\<close>

definition shape :: "nat \<Rightarrow> tensor \<Rightarrow> bool" where
  "shape n t = (length t = n \<and> (\<forall>row \<in> set t. length row = n))"

text \<open>Every index stored in the dictionary addresses a table of size \<open>n\<close>.\<close>

definition indices_ok :: "nat \<Rightarrow> (pystr, int) dict \<Rightarrow> bool" where
  "indices_ok n mapping = (\<forall>v \<in> set (map snd mapping). - int n \<le> v \<and> v < int n)"

section \<open>The script\<close>

text \<open>
  The block under \<open>__main__\<close>, on the module's global variables (\<open>None\<close>: not yet
  bound). The lines of \<open>data/nombres_raw.txt\<close> are its input; the plot is left out.
\<close>

record globals =
  g_char_to_idx :: "(pystr, int) dict option"
  g_bigrams :: "bigram list option"
  g_bigram_counts :: "tensor option"
  g_idx_to_char :: "(int, pystr) dict option"

definition main_block ::
  "(pystr \<Rightarrow> pystr) \<Rightarrow> pystr list \<Rightarrow> globals \<Rightarrow> py_error + globals" where
  "main_block lower lines g =
     (let alphabet = str ''abcdefghijklmnopqrstuvwxyz '';
          start_token = str ''-'';
          end_token = str ''.'';
          mapping = char_to_index alphabet start_token end_token;
          g = g\<lparr>g_char_to_idx := Some mapping\<rparr>;
          bigram_list = load_and_preprocess_data lower lines start_token end_token;
          g = g\<lparr>g_bigrams := Some bigram_list\<rparr>
      in case count_bigrams bigram_list mapping of
           Inl e \<Rightarrow> Inl e
         | Inr counts \<Rightarrow>
             Inr (g\<lparr>g_bigram_counts := Some counts,
                    g_idx_to_char := Some (index_to_char mapping)\<rparr>))"

section \<open>Dictionaries\<close>

lemma map_of_dict_set: "map_of (dict_set k v d) = (map_of d)(k \<mapsto> v)"
  by (induction d) (auto simp: fun_eq_iff)

lemma keys_dict_set:
  "map fst (dict_set k v d) = (if k \<in> set (map fst d) then map fst d else map fst d @ [k])"
  by (induction d) force+

lemma wf_dict_set: "wf_dict d \<Longrightarrow> wf_dict (dict_set k v d)"
  by (simp add: wf_dict_def keys_dict_set)

lemma length_dict_set:
  "length (dict_set k v d) = (if k \<in> set (map fst d) then length d else Suc (length d))"
  by (induction d) force+

lemma set_keys_dict_set: "set (map fst (dict_set k v d)) = insert k (set (map fst d))"
  by (auto simp: keys_dict_set)

text \<open>A run of assignments: the last assignment to a key is the one that is read.\<close>

lemma map_of_fold_dict_set:
  "map_of (fold (\<lambda>(k, v). dict_set k v) kvs d) = map_of (rev kvs @ d)"
proof (induction kvs arbitrary: d)
  case Nil
  show ?case by simp
next
  case (Cons kv kvs)
  obtain k v where kv: "kv = (k, v)" by (cases kv)
  show ?case
    by (simp add: kv Cons.IH map_of_dict_set map_add_def fun_eq_iff split: option.splits)
qed

lemma wf_fold_dict_set: "wf_dict d \<Longrightarrow> wf_dict (fold (\<lambda>(k, v). dict_set k v) kvs d)"
  by (induction kvs arbitrary: d) (auto simp: wf_dict_set)

lemma keys_fold_dict_set:
  "set (map fst (fold (\<lambda>(k, v). dict_set k v) kvs d)) = set (map fst kvs) \<union> set (map fst d)"
  by (induction kvs arbitrary: d) (auto simp: set_keys_dict_set simp del: set_map)

lemma length_wf_dict: "wf_dict d \<Longrightarrow> length d = card (set (map fst d))"
  unfolding wf_dict_def by (metis distinct_card length_map)

lemma fold_dict_set_fresh:
  "distinct (map fst kvs) \<Longrightarrow> set (map fst kvs) \<inter> set (map fst d) = {} \<Longrightarrow>
   fold (\<lambda>(k, v). dict_set k v) kvs d = d @ kvs"
proof (induction kvs arbitrary: d)
  case Nil
  show ?case by simp
next
  case (Cons kv kvs)
  obtain k v where kv: "kv = (k, v)" by (cases kv)
  have fresh: "dict_set k v d = d @ [(k, v)]" if "k \<notin> set (map fst d)" for d :: "('a \<times> 'b) list"
    using that by (induction d) auto
  from Cons.prems have k: "k \<notin> set (map fst d)" by (auto simp: kv)
  have "fold (\<lambda>(k, v). dict_set k v) kvs (d @ [(k, v)]) = (d @ [(k, v)]) @ kvs"
    using Cons.prems by (intro Cons.IH) (auto simp: kv)
  then show ?case by (simp add: kv fresh[OF k])
qed

section \<open>Properties of the vocabulary\<close>

lemma char_to_index_fold:
  "char_to_index alphabet st en = fold (\<lambda>(k, v). dict_set k v) (assignments alphabet st en) []"
  by (simp add: char_to_index_def assignments_def fold_map comp_def case_prod_unfold)

lemma map_snd_enumerate_fun: "map (\<lambda>x. f (snd x)) (enumerate n xs) = map f xs"
  by (induction xs arbitrary: n) simp_all

lemma map_fst_enumerate_fun: "map (\<lambda>x. g (fst x)) (enumerate n xs) = map g [n ..< n + length xs]"
proof -
  have "map (\<lambda>x. g (fst x)) (enumerate n xs) = map g (map fst (enumerate n xs))"
    by (simp only: map_map comp_def)
  then show ?thesis by (simp only: map_fst_enumerate)
qed

lemma keys_assignments:
  "map fst (assignments alphabet st en) = st # map (\<lambda>c. [c]) alphabet @ [en]"
  by (simp add: assignments_def comp_def case_prod_unfold
        map_snd_enumerate_fun[where f = "\<lambda>c. [c]"])

lemma upt_ends: "[0 ..< n + 2] = 0 # [1 ..< 1 + n] @ [n + 1]"
  by (induction n) (simp_all add: upt_conv_Cons)

lemma values_assignments:
  "map snd (assignments alphabet st en) = map int [0 ..< length alphabet + 2]"
  unfolding upt_ends
  by (simp add: assignments_def comp_def case_prod_unfold
        map_fst_enumerate_fun[where g = int])

lemma nth_assignments:
  "k < length alphabet \<Longrightarrow> assignments alphabet st en ! Suc k = ([alphabet ! k], int k + 1)"
  by (simp add: assignments_def nth_append nth_enumerate_eq)

lemma length_assignments: "length (assignments alphabet st en) = length alphabet + 2"
  by (simp add: assignments_def)

lemma distinct_keys_assignments:
  "valid_vocab alphabet st en \<Longrightarrow> distinct (map fst (assignments alphabet st en))"
  by (auto simp: keys_assignments valid_vocab_def distinct_map inj_on_def)

lemma char_to_index_valid:
  "valid_vocab alphabet st en \<Longrightarrow> char_to_index alphabet st en = assignments alphabet st en"
  using fold_dict_set_fresh[of "assignments alphabet st en" "[]"]
  by (simp add: char_to_index_fold distinct_keys_assignments)

lemma map_of_char_to_index:
  "map_of (char_to_index alphabet st en) = map_of (rev (assignments alphabet st en))"
  by (simp add: char_to_index_fold map_of_fold_dict_set)

lemma wf_char_to_index: "wf_dict (char_to_index alphabet st en)"
  unfolding char_to_index_fold by (rule wf_fold_dict_set) (simp add: wf_dict_def)

lemma index_to_char_fold:
  "index_to_char d = fold (\<lambda>(k, v). dict_set k v) (map (\<lambda>(c, i). (i, c)) d) []"
  by (simp add: index_to_char_def fold_map comp_def case_prod_unfold)

lemma index_to_char_inj:
  "distinct (map snd d) \<Longrightarrow> index_to_char d = map (\<lambda>(c, i). (i, c)) d"
  using fold_dict_set_fresh[of "map (\<lambda>(c, i). (i, c)) d" "[]"]
  by (simp add: index_to_char_fold comp_def case_prod_unfold)

lemma values_char_to_index:
  "valid_vocab alphabet st en \<Longrightarrow>
   map snd (char_to_index alphabet st en) = map int [0 ..< length alphabet + 2]"
  by (simp add: char_to_index_valid values_assignments)

lemma distinct_int_upt: "distinct (map int [0 ..< m])"
  by (simp add: distinct_map inj_on_def)

lemma distinct_values_char_to_index:
  "valid_vocab alphabet st en \<Longrightarrow> distinct (map snd (char_to_index alphabet st en))"
  by (simp only: values_char_to_index distinct_int_upt)

lemma set_int_upt: "set (map int [0 ..< n]) = {0 ..< int n}"
  by (auto simp: image_iff) (metis nat_0_le nat_less_iff atLeastLessThan_iff atLeast0LessThan lessThan_iff)

text \<open>
  C3. For every alphabet and pair of sentinels, the dictionary of \<open>char_to_index\<close> is
  the one built by assigning 0 to the start token, \<open>k + 1\<close> to the k-th character of the
  alphabet and \<open>len(alphabet) + 1\<close> to the end token, in this order; a key reads the
  index of its last assignment, and the end token, assigned last, always reads
  \<open>len(alphabet) + 1\<close>. When the alphabet has no duplicate and neither sentinel, and the
  sentinels differ, every assignment is read back as it was made, the dictionary has
  \<open>len(alphabet) + 2\<close> entries, and their indices are exactly the numbers from 0 up to
  \<open>len(alphabet) + 1\<close>.
\<close>

theorem char_to_index_entries:
  fixes alphabet start_token end_token :: pystr
  defines "d \<equiv> char_to_index alphabet start_token end_token"
  shows "d = fold (\<lambda>(key, index). dict_set key index)
               (assignments alphabet start_token end_token) [] \<and>
         map_of d = map_of (rev (assignments alphabet start_token end_token)) \<and>
         map_of d end_token = Some (int (length alphabet) + 1) \<and>
         (valid_vocab alphabet start_token end_token \<longrightarrow>
            map_of d start_token = Some 0 \<and>
            (\<forall>k < length alphabet. map_of d [alphabet ! k] = Some (int k + 1)) \<and>
            length d = length alphabet + 2 \<and> wf_dict d \<and>
            set (map snd d) = {0 ..< int (length alphabet) + 2})"
proof (intro conjI impI)
  show "d = fold (\<lambda>(key, index). dict_set key index)
              (assignments alphabet start_token end_token) []"
    by (simp add: d_def char_to_index_fold)
  show "map_of d = map_of (rev (assignments alphabet start_token end_token))"
    by (simp add: d_def map_of_char_to_index)
  then show "map_of d end_token = Some (int (length alphabet) + 1)"
    by (simp add: assignments_def)
next
  assume v: "valid_vocab alphabet start_token end_token"
  let ?A = "assignments alphabet start_token end_token"
  have d: "d = ?A" by (simp add: d_def char_to_index_valid v)
  have dist: "distinct (map fst ?A)" by (rule distinct_keys_assignments[OF v])
  have "(start_token, 0) \<in> set ?A" by (simp add: assignments_def)
  then show "map_of d start_token = Some 0" using dist by (simp add: d)
  show "\<forall>k < length alphabet. map_of d [alphabet ! k] = Some (int k + 1)"
  proof (intro allI impI)
    fix k assume k: "k < length alphabet"
    have "?A ! Suc k \<in> set ?A" using k by (intro nth_mem) (simp add: length_assignments)
    then have "([alphabet ! k], int k + 1) \<in> set ?A" by (simp add: nth_assignments k)
    then show "map_of d [alphabet ! k] = Some (int k + 1)" using dist by (simp add: d)
  qed
  show "length d = length alphabet + 2" by (simp add: d length_assignments)
  show "wf_dict d" by (simp add: d_def wf_char_to_index)
  have "set (map snd d) = set (map int [0 ..< length alphabet + 2])"
    by (simp only: d values_assignments)
  then show "set (map snd d) = {0 ..< int (length alphabet) + 2}"
    by (simp only: set_int_upt) (simp add: algebra_simps)
qed

theorem char_to_index_entries_witness:
  "valid_vocab (str ''ab'') (str ''-'') (str ''.'') \<and>
   map_of (char_to_index (str ''ab'') (str ''-'') (str ''.'')) (str ''-'') = Some 0 \<and>
   map_of (char_to_index (str ''ab'') (str ''-'') (str ''.'')) (str ''b'') = Some 2 \<and>
   map_of (char_to_index (str ''ab'') (str ''-'') (str ''.'')) (str ''.'') = Some 3 \<and>
   length (char_to_index (str ''ab'') (str ''-'') (str ''.'')) = 4"
proof -
  let ?d = "char_to_index (str ''ab'') (str ''-'') (str ''.'')"
  have v: "valid_vocab (str ''ab'') (str ''-'') (str ''.'')"
    by (simp add: valid_vocab_def str_def)
  note t = char_to_index_entries[of "str ''ab''" "str ''-''" "str ''.''"]
  from t v have s: "map_of ?d (str ''-'') = Some 0" by blast
  from t v have "\<forall>k < length (str ''ab''). map_of ?d [str ''ab'' ! k] = Some (int k + 1)"
    by blast
  then have "1 < length (str ''ab'') \<longrightarrow> map_of ?d [str ''ab'' ! 1] = Some (int 1 + 1)"
    by blast
  then have b: "map_of ?d (str ''b'') = Some 2" by (simp add: str_def)
  from t have e: "map_of ?d (str ''.'') = Some (int (length (str ''ab'')) + 1)" by blast
  from t v have l: "length ?d = length (str ''ab'') + 2" by blast
  from e l show ?thesis by (simp add: v s b) (simp add: str_def)
qed

theorem char_to_index_entries_counterexample:
  "char_to_index (str ''-'') (str ''-'') (str ''.'') = [(str ''-'', 1), (str ''.'', 2)] \<and>
   map_of (char_to_index (str ''-'') (str ''-'') (str ''.'')) (str ''-'') \<noteq> Some 0 \<and>
   char_to_index (str ''aa'') (str ''-'') (str ''.'') =
     [(str ''-'', 0), (str ''a'', 2), (str ''.'', 3)] \<and>
   map_of (char_to_index (str ''aa'') (str ''-'') (str ''.'')) [str ''aa'' ! 0] \<noteq> Some (0 + 1)"
  by (simp add: char_to_index_def str_def enumerate_eq_zip upt_rec)

lemma map_of_swap:
  "distinct (map snd d) \<Longrightarrow>
   map_of (map (\<lambda>(c, i). (i, c)) d) i = Some c \<longleftrightarrow> (c, i) \<in> set d"
proof -
  assume dist: "distinct (map snd d)"
  have eq: "map fst (map (\<lambda>(c, i). (i, c)) d) = map snd d"
    by (simp add: comp_def case_prod_unfold)
  have "distinct (map fst (map (\<lambda>(c, i). (i, c)) d))"
    unfolding eq by (rule dist)
  then have "map_of (map (\<lambda>(c, i). (i, c)) d) i = Some c \<longleftrightarrow>
             (i, c) \<in> set (map (\<lambda>(c, i). (i, c)) d)"
    by (rule map_of_eq_Some_iff)
  also have "\<dots> \<longleftrightarrow> (c, i) \<in> set d" by auto
  finally show ?thesis .
qed

lemma inverse_lookup:
  assumes "valid_vocab alphabet st en"
  shows "map_of (index_to_char (char_to_index alphabet st en)) i = Some c \<longleftrightarrow>
         map_of (char_to_index alphabet st en) c = Some i"
proof -
  let ?d = "char_to_index alphabet st en"
  have dv: "distinct (map snd ?d)" by (rule distinct_values_char_to_index[OF assms])
  have dk: "distinct (map fst ?d)" using wf_char_to_index[of alphabet st en] by (simp add: wf_dict_def)
  have "map_of (index_to_char ?d) i = Some c \<longleftrightarrow> (c, i) \<in> set ?d"
    by (simp only: index_to_char_inj[OF dv] map_of_swap[OF dv])
  also have "\<dots> \<longleftrightarrow> map_of ?d c = Some i" using dk by simp
  finally show ?thesis .
qed

text \<open>
  C4. For an alphabet without duplicates and without the sentinels, and two distinct
  sentinels, \<open>index_to_char\<close> of \<open>char_to_index\<close> is its exact inverse: every symbol of
  the alphabet and both sentinels have an index that \<open>index_to_char\<close> maps back to the
  symbol, no two symbols share an index, every index from 0 to \<open>len(alphabet) + 1\<close> is
  mapped, and both dictionaries have \<open>len(alphabet) + 2\<close> entries.
\<close>

theorem vocabulary_inverse:
  fixes alphabet start_token end_token :: pystr
  defines "c2i \<equiv> char_to_index alphabet start_token end_token"
  defines "i2c \<equiv> index_to_char (char_to_index alphabet start_token end_token)"
  assumes v: "valid_vocab alphabet start_token end_token"
  shows "(\<forall>c \<in> set (start_token # end_token # map (\<lambda>x. [x]) alphabet).
            \<exists>i. map_of c2i c = Some i \<and> map_of i2c i = Some c) \<and>
         (\<forall>c c' i. map_of c2i c = Some i \<and> map_of c2i c' = Some i \<longrightarrow> c = c') \<and>
         (\<forall>i. 0 \<le> i \<and> i < int (length alphabet) + 2 \<longrightarrow>
            (\<exists>c. map_of i2c i = Some c \<and> map_of c2i c = Some i)) \<and>
         (\<forall>i c. map_of i2c i = Some c \<longleftrightarrow> map_of c2i c = Some i) \<and>
         length c2i = length alphabet + 2 \<and> length i2c = length alphabet + 2"
proof -
  let ?A = "assignments alphabet start_token end_token"
  have c2i: "c2i = ?A" by (simp add: c2i_def char_to_index_valid v)
  have dk: "distinct (map fst c2i)" unfolding c2i by (rule distinct_keys_assignments[OF v])
  have dv: "distinct (map snd c2i)" unfolding c2i_def by (rule distinct_values_char_to_index[OF v])
  have inv: "map_of i2c i = Some c \<longleftrightarrow> map_of c2i c = Some i" for i c
    unfolding i2c_def c2i_def by (rule inverse_lookup[OF v])
  have keys: "set (map fst c2i) = set (start_token # end_token # map (\<lambda>x. [x]) alphabet)"
    by (auto simp: c2i keys_assignments)
  have vals: "set (map snd c2i) = {0 ..< int (length alphabet) + 2}"
    by (simp only: c2i values_assignments set_int_upt) (simp add: algebra_simps)
  have 1: "\<forall>c \<in> set (start_token # end_token # map (\<lambda>x. [x]) alphabet).
            \<exists>i. map_of c2i c = Some i \<and> map_of i2c i = Some c"
  proof
    fix c assume "c \<in> set (start_token # end_token # map (\<lambda>x. [x]) alphabet)"
    then have "c \<in> set (map fst c2i)" by (simp only: keys)
    then obtain i where "(c, i) \<in> set c2i" by auto
    then have "map_of c2i c = Some i" using dk by simp
    then show "\<exists>i. map_of c2i c = Some i \<and> map_of i2c i = Some c" by (auto simp: inv)
  qed
  have 2: "\<forall>c c' i. map_of c2i c = Some i \<and> map_of c2i c' = Some i \<longrightarrow> c = c'"
  proof (intro allI impI)
    fix c c' i assume "map_of c2i c = Some i \<and> map_of c2i c' = Some i"
    then have "map_of i2c i = Some c" "map_of i2c i = Some c'" by (simp_all add: inv)
    then show "c = c'" by simp
  qed
  have 3: "\<forall>i. 0 \<le> i \<and> i < int (length alphabet) + 2 \<longrightarrow>
            (\<exists>c. map_of i2c i = Some c \<and> map_of c2i c = Some i)"
  proof (intro allI impI)
    fix i :: int assume "0 \<le> i \<and> i < int (length alphabet) + 2"
    then have "i \<in> set (map snd c2i)" by (simp only: vals) simp
    then obtain c where "(c, i) \<in> set c2i" by auto
    then have "map_of c2i c = Some i" using dk by simp
    then show "\<exists>c. map_of i2c i = Some c \<and> map_of c2i c = Some i" by (auto simp: inv)
  qed
  have 4: "length c2i = length alphabet + 2" by (simp add: c2i length_assignments)
  have 5: "length i2c = length alphabet + 2"
    unfolding i2c_def using dv 4 by (simp add: index_to_char_inj c2i_def)
  from 1 2 3 inv 4 5 show ?thesis by blast
qed

theorem vocabulary_inverse_witness:
  "valid_vocab (str ''ab'') (str ''-'') (str ''.'') \<and>
   map_of (char_to_index (str ''ab'') (str ''-'') (str ''.'')) (str ''a'') = Some 1 \<and>
   map_of (index_to_char (char_to_index (str ''ab'') (str ''-'') (str ''.''))) 1 = Some (str ''a'') \<and>
   length (index_to_char (char_to_index (str ''ab'') (str ''-'') (str ''.''))) = 4"
proof -
  let ?d = "char_to_index (str ''ab'') (str ''-'') (str ''.'')"
  have v: "valid_vocab (str ''ab'') (str ''-'') (str ''.'')"
    by (simp add: valid_vocab_def str_def)
  have a: "map_of ?d (str ''a'') = Some 1"
    by (simp add: char_to_index_def str_def enumerate_eq_zip upt_rec)
  note t = vocabulary_inverse[OF v]
  from t have "\<forall>i c. map_of (index_to_char ?d) i = Some c \<longleftrightarrow> map_of ?d c = Some i"
    by blast
  with a have b: "map_of (index_to_char ?d) 1 = Some (str ''a'')" by blast
  from t have "length (index_to_char ?d) = length (str ''ab'') + 2" by blast
  then have l: "length (index_to_char ?d) = 4" by (simp add: str_def)
  from v a b l show ?thesis by blast
qed

lemma keys_char_to_index:
  "set (map fst (char_to_index alphabet st en)) = set (st # map (\<lambda>c. [c]) alphabet @ [en])"
  unfolding char_to_index_fold keys_fold_dict_set by (simp only: keys_assignments) simp

lemma length_char_to_index_le:
  "length (char_to_index alphabet st en) \<le> length alphabet + 2"
proof -
  have "length (char_to_index alphabet st en) = card (set (st # map (\<lambda>c. [c]) alphabet @ [en]))"
    by (simp only: length_wf_dict[OF wf_char_to_index] keys_char_to_index)
  also have "\<dots> \<le> length (st # map (\<lambda>c. [c]) alphabet @ [en])" by (rule card_length)
  finally show ?thesis by simp
qed

lemma length_char_to_index_collision:
  assumes "\<not> distinct (st # map (\<lambda>c. [c]) alphabet @ [en])"
  shows "length (char_to_index alphabet st en) < length alphabet + 2"
proof -
  let ?ks = "st # map (\<lambda>c. [c]) alphabet @ [en]"
  have "length (char_to_index alphabet st en) = card (set ?ks)"
    by (simp only: length_wf_dict[OF wf_char_to_index] keys_char_to_index)
  moreover have "card (set ?ks) \<noteq> length ?ks" using assms card_distinct by blast
  moreover have "card (set ?ks) \<le> length ?ks" by (rule card_length)
  ultimately show ?thesis by simp
qed

lemma map_of_rev_mem:
  "k \<in> set (map fst xs) \<Longrightarrow> \<exists>v. map_of (rev xs) k = Some v \<and> (k, v) \<in> set xs"
proof -
  assume "k \<in> set (map fst xs)"
  then have "k \<in> fst ` set (rev xs)" by simp
  then obtain v where v: "map_of (rev xs) k = Some v"
    by (metis domD dom_map_of_conv_image_fst)
  then have "(k, v) \<in> set (rev xs)" by (rule map_of_SomeD)
  with v show ?thesis by auto
qed

lemma start_token_overwritten:
  assumes "st \<in> set (map (\<lambda>c. [c]) alphabet)" and "st \<noteq> en"
  shows "\<exists>k < length alphabet. st = [alphabet ! k] \<and>
           map_of (char_to_index alphabet st en) st = Some (int k + 1)"
proof -
  let ?mid = "map (\<lambda>(idx, char). ([char], int idx)) (enumerate 1 alphabet)"
  have keys: "map fst ?mid = map (\<lambda>c. [c]) alphabet"
    by (simp add: comp_def case_prod_unfold map_snd_enumerate_fun[where f = "\<lambda>c. [c]"])
  with assms(1) have "st \<in> set (map fst ?mid)" by simp
  from map_of_rev_mem[OF this] obtain v
    where v: "map_of (rev ?mid) st = Some v" and mem: "(st, v) \<in> set ?mid" by blast
  from mem obtain k where k: "k < length ?mid" and nth: "?mid ! k = (st, v)"
    by (meson in_set_conv_nth)
  from k have k': "k < length alphabet" by simp
  from nth k' have "st = [alphabet ! k]" "v = int k + 1"
    by (simp_all add: nth_enumerate_eq)
  moreover have "map_of (char_to_index alphabet st en) st = Some v"
    using v assms(2) by (simp add: map_of_char_to_index assignments_def map_add_def)
  ultimately show ?thesis using k' by blast
qed

text \<open>
  C6. When a character of the alphabet equals the start token or the end token,
  \<open>char_to_index\<close> checks nothing and returns a dictionary all the same: the later
  assignment replaces the earlier one, so that the key keeps one index, the one assigned
  later (an end token in the alphabet reads \<open>len(alphabet) + 1\<close>, a start token in the
  alphabet reads the index of an alphabet position, not 0), and the dictionary has fewer
  than \<open>len(alphabet) + 2\<close> entries.
\<close>

theorem char_to_index_collision:
  fixes alphabet start_token end_token :: pystr
  defines "d \<equiv> char_to_index alphabet start_token end_token"
  assumes clash: "start_token \<in> set (map (\<lambda>c. [c]) alphabet) \<or>
                  end_token \<in> set (map (\<lambda>c. [c]) alphabet)"
  shows "wf_dict d \<and> length d < length alphabet + 2 \<and>
         map_of d = map_of (rev (assignments alphabet start_token end_token)) \<and>
         map_of d end_token = Some (int (length alphabet) + 1) \<and>
         (start_token \<in> set (map (\<lambda>c. [c]) alphabet) \<and> start_token \<noteq> end_token \<longrightarrow>
            (\<exists>k < length alphabet. start_token = [alphabet ! k] \<and>
               map_of d start_token = Some (int k + 1)))"
proof -
  have "\<not> distinct (start_token # map (\<lambda>c. [c]) alphabet @ [end_token])"
    using clash by auto
  then have "length d < length alphabet + 2"
    unfolding d_def by (rule length_char_to_index_collision)
  moreover have "wf_dict d" unfolding d_def by (rule wf_char_to_index)
  moreover have m: "map_of d = map_of (rev (assignments alphabet start_token end_token))"
    unfolding d_def by (rule map_of_char_to_index)
  moreover have "map_of d end_token = Some (int (length alphabet) + 1)"
    by (simp add: m assignments_def)
  moreover have "start_token \<in> set (map (\<lambda>c. [c]) alphabet) \<and> start_token \<noteq> end_token \<longrightarrow>
            (\<exists>k < length alphabet. start_token = [alphabet ! k] \<and>
               map_of d start_token = Some (int k + 1))"
    unfolding d_def using start_token_overwritten by blast
  ultimately show ?thesis by blast
qed

theorem char_to_index_collision_witness:
  "str ''-'' \<in> set (map (\<lambda>c. [c]) (str ''a-b'')) \<and>
   char_to_index (str ''a-b'') (str ''-'') (str ''.'') =
     [(str ''-'', 2), (str ''a'', 1), (str ''b'', 3), (str ''.'', 4)] \<and>
   length (char_to_index (str ''a-b'') (str ''-'') (str ''.'')) < length (str ''a-b'') + 2 \<and>
   wf_dict (char_to_index (str ''a-b'') (str ''-'') (str ''.''))"
proof -
  have c: "str ''-'' \<in> set (map (\<lambda>c. [c]) (str ''a-b''))" by (simp add: str_def)
  have e: "char_to_index (str ''a-b'') (str ''-'') (str ''.'') =
     [(str ''-'', 2), (str ''a'', 1), (str ''b'', 3), (str ''.'', 4)]"
    by (simp add: char_to_index_def str_def enumerate_eq_zip upt_rec)
  from c have "str ''-'' \<in> set (map (\<lambda>c. [c]) (str ''a-b'')) \<or>
      str ''.'' \<in> set (map (\<lambda>c. [c]) (str ''a-b''))" by blast
  note t = char_to_index_collision[OF this]
  from t have l: "length (char_to_index (str ''a-b'') (str ''-'') (str ''.'')) < length (str ''a-b'') + 2"
    by blast
  from t have w: "wf_dict (char_to_index (str ''a-b'') (str ''-'') (str ''.''))" by blast
  from c e l w show ?thesis by blast
qed

section \<open>Properties of the extractor\<close>

lemma load_loop_concat:
  "load_loop lower lines st en acc = acc @ concat (map (line_bigrams lower st en) lines)"
  by (induction lines arbitrary: acc) (simp_all add: line_bigrams_def Let_def split: list.splits)

lemma load_concat:
  "load_and_preprocess_data lower lines st en = concat (map (line_bigrams lower st en) lines)"
  by (simp add: load_and_preprocess_data_def load_loop_concat)

lemma length_word_bigrams: "length (word_bigrams pw) = length pw - 1"
  by (simp add: word_bigrams_def)

lemma firsts_word_bigrams: "concat (map fst (word_bigrams pw)) = butlast pw"
  by (rule nth_equalityI) (simp_all add: word_bigrams_def comp_def nth_butlast map_nth flip: map_concat)

lemma split_from_empty_iff:
  "split_from tok s = [] \<longleftrightarrow> tok = [] \<and> (\<forall>c \<in> set s. isspace c)"
  by (induction s arbitrary: tok) auto

lemma split_empty_iff: "split s = [] \<longleftrightarrow> (\<forall>c \<in> set s. isspace c)"
  by (simp add: split_def split_from_empty_iff)

lemma line_bigrams_blank: "split l = [] \<Longrightarrow> line_bigrams lower st en l = []"
  by (simp add: line_bigrams_def)

lemma line_bigrams_word:
  "split line = w # rest \<Longrightarrow> line_bigrams lower st en line = word_bigrams (st @ lower w @ en)"
  by (simp add: line_bigrams_def)

lemma last_word_bigrams:
  "2 \<le> length pw \<Longrightarrow> snd (last (word_bigrams pw)) = [last pw]"
proof -
  assume "2 \<le> length pw"
  then have "length pw = Suc (Suc (length pw - 2))" by simp
  then obtain m where m: "length pw = Suc (Suc m)" ..
  then have ne: "pw \<noteq> []" by auto
  have len: "length (word_bigrams pw) = Suc m" by (simp add: length_word_bigrams m)
  then have "word_bigrams pw \<noteq> []" by auto
  then have "last (word_bigrams pw) = word_bigrams pw ! m"
    by (simp add: last_conv_nth len)
  also have "\<dots> = ([pw ! m], [pw ! Suc m])"
    by (simp add: word_bigrams_def m del: upt_Suc)
  finally show ?thesis using ne by (simp add: last_conv_nth m)
qed

text \<open>
  C2. For a record whose first whitespace-delimited token is \<open>w\<close>, the extractor forms
  \<open>padded = start_token + lower(w) + end_token\<close> and yields the \<open>len(padded) - 1\<close> pairs
  \<open>(padded[i], padded[i + 1])\<close> in order, in the place of the record among the bigrams of
  the other records. With one-character sentinels these are \<open>len(lower(w)) + 1\<close> bigrams,
  which is \<open>len(w) + 1\<close> when lowercasing keeps the length of \<open>w\<close>. The first elements
  of the bigrams, concatenated, give \<open>padded\<close> without its last character; followed by
  the second element of the last bigram they give \<open>padded\<close>.
\<close>

theorem extract_word_bigrams:
  fixes lower :: "pystr \<Rightarrow> pystr" and line w start_token end_token :: pystr
  defines "padded \<equiv> start_token @ lower w @ end_token"
  defines "bs \<equiv> load_and_preprocess_data lower [line] start_token end_token"
  assumes tok: "split line = w # rest"
  shows "bs = map (\<lambda>i. ([padded ! i], [padded ! (i + 1)])) [0 ..< length padded - 1] \<and>
         length bs = length padded - 1 \<and>
         load_and_preprocess_data lower (before @ line # after) start_token end_token =
           load_and_preprocess_data lower before start_token end_token @ bs @
           load_and_preprocess_data lower after start_token end_token \<and>
         (length start_token = 1 \<and> length end_token = 1 \<longrightarrow>
            length bs = length (lower w) + 1) \<and>
         (length start_token = 1 \<and> length end_token = 1 \<and> length (lower w) = length w \<longrightarrow>
            length bs = length w + 1) \<and>
         concat (map fst bs) = butlast padded \<and>
         (2 \<le> length padded \<longrightarrow> concat (map fst bs) @ snd (last bs) = padded)"
proof -
  have bs: "bs = word_bigrams padded"
    by (simp add: bs_def padded_def load_concat line_bigrams_word[OF tok])
  have 1: "bs = map (\<lambda>i. ([padded ! i], [padded ! (i + 1)])) [0 ..< length padded - 1]"
    by (simp add: bs word_bigrams_def)
  have 2: "length bs = length padded - 1" by (simp add: bs length_word_bigrams)
  have 3: "load_and_preprocess_data lower (before @ line # after) start_token end_token =
           load_and_preprocess_data lower before start_token end_token @ bs @
           load_and_preprocess_data lower after start_token end_token"
    by (simp add: bs padded_def load_concat line_bigrams_word[OF tok])
  have 4: "length start_token = 1 \<and> length end_token = 1 \<longrightarrow> length bs = length (lower w) + 1"
    by (simp add: 2 padded_def)
  have 5: "length start_token = 1 \<and> length end_token = 1 \<and> length (lower w) = length w \<longrightarrow>
            length bs = length w + 1"
    by (simp add: 2 padded_def)
  have 6: "concat (map fst bs) = butlast padded" by (simp only: bs firsts_word_bigrams)
  have 7: "2 \<le> length padded \<longrightarrow> concat (map fst bs) @ snd (last bs) = padded"
  proof
    assume l: "2 \<le> length padded"
    then have "padded \<noteq> []" by auto
    then show "concat (map fst bs) @ snd (last bs) = padded"
      by (simp add: bs firsts_word_bigrams last_word_bigrams[OF l])
  qed
  from 1 2 3 4 5 6 7 show ?thesis by blast
qed

theorem extract_word_bigrams_witness:
  "split (str ''Anna 5 3'') = [str ''Anna'', str ''5'', str ''3''] \<and>
   load_and_preprocess_data str_lower [str ''Anna 5 3''] (str ''-'') (str ''.'') =
     [(str ''-'', str ''a''), (str ''a'', str ''n''), (str ''n'', str ''n''),
      (str ''n'', str ''a''), (str ''a'', str ''.'')] \<and>
   length (load_and_preprocess_data str_lower [str ''Anna 5 3''] (str ''-'') (str ''.'')) =
     length (str ''Anna'') + 1"
proof -
  have s: "split (str ''Anna 5 3'') = [str ''Anna'', str ''5'', str ''3'']"
    by (simp add: str_def split_def isspace_def)
  have l: "str_lower (str ''Anna'') = str ''anna''"
    by (simp add: str_lower_def lower_char_def str_def)
  note t = extract_word_bigrams[OF s, of str_lower "str ''-''" "str ''.''"]
  from t have "load_and_preprocess_data str_lower [str ''Anna 5 3''] (str ''-'') (str ''.'') =
      map (\<lambda>i. ([(str ''-'' @ str_lower (str ''Anna'') @ str ''.'') ! i],
                 [(str ''-'' @ str_lower (str ''Anna'') @ str ''.'') ! (i + 1)]))
        [0 ..< length (str ''-'' @ str_lower (str ''Anna'') @ str ''.'') - 1]"
    by blast
  then have b: "load_and_preprocess_data str_lower [str ''Anna 5 3''] (str ''-'') (str ''.'') =
     [(str ''-'', str ''a''), (str ''a'', str ''n''), (str ''n'', str ''n''),
      (str ''n'', str ''a''), (str ''a'', str ''.'')]"
    by (simp add: l) (simp add: str_def upt_rec)
  have "length (str ''-'') = 1 \<and> length (str ''.'') = 1 \<and>
        length (str_lower (str ''Anna'')) = length (str ''Anna'')"
    by (simp add: l) (simp add: str_def)
  with t have n: "length (load_and_preprocess_data str_lower [str ''Anna 5 3''] (str ''-'') (str ''.'')) =
     length (str ''Anna'') + 1"
    by blast
  from s b n show ?thesis by blast
qed

theorem extract_word_bigrams_counterexample:
  "split [304] = [[304]] \<and>
   load_and_preprocess_data str_lower [[304]] (str ''-'') (str ''.'') =
     [([45], [105]), ([105], [775]), ([775], [46])] \<and>
   length (load_and_preprocess_data str_lower [[304]] (str ''-'') (str ''.'')) \<noteq>
     length [304 :: nat] + 1 \<and>
   split (str ''a'') = [str ''a''] \<and>
   concat (map fst (load_and_preprocess_data str_lower [str ''a''] (str ''-'') (str ''.''))) \<noteq>
     str ''-'' @ str_lower (str ''a'') @ str ''.''"
  by (simp add: load_and_preprocess_data_def split_def isspace_def str_lower_def lower_char_def
        word_bigrams_def str_def upt_rec Let_def)

text \<open>
  C5. A record whose word is the single character \<open>c\<close>, with lowercase form the single
  character \<open>c'\<close>, yields two bigrams between one-character sentinels:
  \<open>(start_token, c')\<close> and \<open>(c', end_token)\<close>.
\<close>

theorem single_character_word:
  assumes "split line = [c] # rest" and "lower [c] = [c']"
  shows "load_and_preprocess_data lower [line] [s] [e] = [([s], [c']), ([c'], [e])]"
  using assms
  by (simp add: load_concat line_bigrams_def word_bigrams_def upt_rec)

theorem single_character_word_witness:
  "split (str ''A 5 3'') = [65] # [str ''5'', str ''3''] \<and> str_lower [65] = [97] \<and>
   load_and_preprocess_data str_lower [str ''A 5 3''] [45] [46] = [([45], [97]), ([97], [46])]"
proof -
  have s: "split (str ''A 5 3'') = [65] # [str ''5'', str ''3'']"
    by (simp add: str_def split_def isspace_def)
  have l: "str_lower [65] = [97]" by (simp add: str_lower_def lower_char_def)
  from single_character_word[where lower = str_lower and line = "str ''A 5 3''" and c = 65
      and c' = 97 and rest = "[str ''5'', str ''3'']" and s = 45 and e = 46, OF s l] s l
  show ?thesis by blast
qed

theorem single_character_word_counterexample:
  "split (str ''a'') = [str ''a''] \<and>
   load_and_preprocess_data str_lower [str ''a''] (str ''-'') (str ''.'') =
     [(str ''-'', str ''a''), (str ''a'', str ''.'')] \<and>
   load_and_preprocess_data str_lower [str ''a''] (str ''-'') (str ''.'') \<noteq>
     [(str ''-'', str ''.'')]"
  by (simp add: load_and_preprocess_data_def split_def isspace_def str_lower_def lower_char_def
        word_bigrams_def str_def upt_rec Let_def)

text \<open>
  C7. A line yields no token exactly when all its characters are whitespace (the empty
  line among them). Such a line adds no bigram and the extractor goes on to the next
  line: the result is that of the source without these lines, in the same order.
\<close>

theorem blank_lines_skipped:
  "(split l = [] \<longleftrightarrow> (\<forall>c \<in> set l. isspace c)) \<and>
   (split l = [] \<longrightarrow>
      load_and_preprocess_data lower (before @ l # after) start_token end_token =
      load_and_preprocess_data lower (before @ after) start_token end_token) \<and>
   load_and_preprocess_data lower (filter (\<lambda>l. split l \<noteq> []) lines) start_token end_token =
     load_and_preprocess_data lower lines start_token end_token"
proof (intro conjI impI)
  show "split l = [] \<longleftrightarrow> (\<forall>c \<in> set l. isspace c)" by (rule split_empty_iff)
  show "load_and_preprocess_data lower (before @ l # after) start_token end_token =
      load_and_preprocess_data lower (before @ after) start_token end_token" if "split l = []"
    using that by (simp add: load_concat line_bigrams_blank)
  show "load_and_preprocess_data lower (filter (\<lambda>l. split l \<noteq> []) lines) start_token end_token =
     load_and_preprocess_data lower lines start_token end_token"
    unfolding load_concat by (induction lines) (simp_all add: line_bigrams_blank)
qed

theorem blank_lines_skipped_witness:
  "split (str ''  '') = [] \<and>
   load_and_preprocess_data str_lower ([str ''ab''] @ str ''  '' # [str ''c'']) (str ''-'') (str ''.'') =
   load_and_preprocess_data str_lower ([str ''ab''] @ [str ''c'']) (str ''-'') (str ''.'') \<and>
   load_and_preprocess_data str_lower ([str ''ab''] @ [str ''c'']) (str ''-'') (str ''.'') =
     [(str ''-'', str ''a''), (str ''a'', str ''b''), (str ''b'', str ''.''),
      (str ''-'', str ''c''), (str ''c'', str ''.'')]"
proof -
  have "\<forall>c \<in> set (str ''  ''). isspace c" by (simp add: str_def isspace_def)
  with blank_lines_skipped[of "str ''  ''"] have s: "split (str ''  '') = []" by blast
  with blank_lines_skipped[of "str ''  ''" str_lower "[str ''ab'']" "[str ''c'']" "str ''-''" "str ''.''"]
  have e: "load_and_preprocess_data str_lower ([str ''ab''] @ str ''  '' # [str ''c'']) (str ''-'') (str ''.'') =
   load_and_preprocess_data str_lower ([str ''ab''] @ [str ''c'']) (str ''-'') (str ''.'')"
    by blast
  have v: "load_and_preprocess_data str_lower ([str ''ab''] @ [str ''c'']) (str ''-'') (str ''.'') =
     [(str ''-'', str ''a''), (str ''a'', str ''b''), (str ''b'', str ''.''),
      (str ''-'', str ''c''), (str ''c'', str ''.'')]"
    by (simp add: load_and_preprocess_data_def split_def isspace_def str_lower_def lower_char_def
        word_bigrams_def str_def upt_rec Let_def)
  from s e v show ?thesis by blast
qed

section \<open>Properties of the counting loop\<close>

lemma norm_index_less: "norm_index n i = Some r \<Longrightarrow> r < n"
  by (auto simp: norm_index_def split: if_splits)

lemma norm_index_ok: "- int n \<le> i \<Longrightarrow> i < int n \<Longrightarrow> \<exists>r. norm_index n i = Some r"
  by (simp add: norm_index_def)

lemma shape_zeros: "shape n (zeros n n)"
  by (simp add: shape_def zeros_def)

lemma shape_nth: "shape n t \<Longrightarrow> r < n \<Longrightarrow> length (t ! r) = n"
  by (simp add: shape_def)

lemma shape_update:
  "shape n t \<Longrightarrow> r < n \<Longrightarrow> shape n (t[r := (t ! r)[c := x]])"
  unfolding shape_def
  by (auto dest!: subsetD[OF set_update_subset_insert])

lemma tensor_incr_ok:
  assumes "shape n t" and "norm_index n i = Some r" and "norm_index n j = Some c"
  shows "tensor_incr t i j = Inr (t[r := (t ! r)[c := t ! r ! c + 1]])"
proof -
  have n: "length t = n" using assms(1) by (simp add: shape_def)
  have r: "r < n" using assms(2) by (rule norm_index_less)
  have "length (t ! r) = n" using assms(1) r by (rule shape_nth)
  then show ?thesis by (simp add: tensor_incr_def n assms(2,3))
qed

lemma cell_update:
  assumes "shape n t" and "r < n" and "c < n" and "r' < n" and "c' < n"
  shows "t[r := (t ! r)[c := x]] ! r' ! c' = (if r' = r \<and> c' = c then x else t ! r' ! c')"
proof -
  have n: "length t = n" using assms(1) by (simp add: shape_def)
  have "length (t ! r) = n" using assms(1,2) by (rule shape_nth)
  then show ?thesis using assms by (auto simp: n nth_list_update)
qed

lemma lookup_index_ok:
  "indices_ok n d \<Longrightarrow> map_of d k = Some v \<Longrightarrow> \<exists>r. norm_index n v = Some r"
proof -
  assume ok: "indices_ok n d" and "map_of d k = Some v"
  then have "(k, v) \<in> set d" by (simp add: map_of_SomeD)
  then have "v \<in> set (map snd d)" by force
  with ok have "- int n \<le> v \<and> v < int n" by (auto simp: indices_ok_def)
  then show ?thesis by (simp add: norm_index_ok)
qed

declare count_loop.simps [simp del]

lemma count_loop_correct:
  assumes "shape n (bigram_counts s)" and "indices_ok n (char_to_idx s)"
  shows "\<exists>s'. count_loop i s = Inr s' \<and> bigrams s' = bigrams s \<and>
           char_to_idx s' = char_to_idx s \<and> shape n (bigram_counts s') \<and>
           (\<forall>r < n. \<forall>c < n. bigram_counts s' ! r ! c =
              bigram_counts s ! r ! c +
              of_nat (length (filter (hits (char_to_idx s) n r c) (drop i (bigrams s)))))"
  using assms
proof (induction i s rule: count_loop.induct)
  case (1 i s)
  show ?case
  proof (cases "i < length (bigrams s)")
    case False
    then show ?thesis using "1.prems" by (subst count_loop.simps) simp
  next
    case True
    let ?b = "bigrams s ! i"
    let ?d = "char_to_idx s"
    let ?t = "bigram_counts s"
    have drop: "drop i (bigrams s) = ?b # drop (i + 1) (bigrams s)"
      using True by (simp add: Cons_nth_drop_Suc)
    obtain char1 char2 where b: "?b = (char1, char2)" by (cases ?b)
    show ?thesis
    proof (cases "\<exists>idx1 idx2. map_of ?d char1 = Some idx1 \<and> map_of ?d char2 = Some idx2")
      case False
      then have body: "count_body ?b s = Inr s"
        by (auto simp: count_body_def b split: option.splits)
      have nohit: "\<not> hits ?d n r c ?b" for r c
        using False by (auto simp: hits_def b split: option.splits)
      from "1.IH"[OF True body "1.prems"] obtain s' where
        s': "count_loop (i + 1) s = Inr s'" "bigrams s' = bigrams s"
            "char_to_idx s' = char_to_idx s" "shape n (bigram_counts s')"
            "\<forall>r < n. \<forall>c < n. bigram_counts s' ! r ! c = ?t ! r ! c +
              of_nat (length (filter (hits ?d n r c) (drop (i + 1) (bigrams s))))"
        by blast
      have "count_loop i s = Inr s'"
        using s'(1) by (subst count_loop.simps) (simp add: True body)
      then show ?thesis using s' by (simp add: drop nohit)
    next
      case in_vocab: True
      then obtain idx1 idx2 where
        l1: "map_of ?d char1 = Some idx1" and l2: "map_of ?d char2 = Some idx2" by blast
      from lookup_index_ok[OF "1.prems"(2) l1] obtain r0 where r0: "norm_index n idx1 = Some r0" ..
      from lookup_index_ok[OF "1.prems"(2) l2] obtain c0 where c0: "norm_index n idx2 = Some c0" ..
      have r0n: "r0 < n" and c0n: "c0 < n" using r0 c0 by (auto dest: norm_index_less)
      let ?t' = "?t[r0 := (?t ! r0)[c0 := ?t ! r0 ! c0 + 1]]"
      let ?s1 = "s\<lparr>bigram_counts := ?t'\<rparr>"
      have incr: "tensor_incr ?t idx1 idx2 = Inr ?t'"
        by (rule tensor_incr_ok[OF "1.prems"(1) r0 c0])
      have body: "count_body ?b s = Inr ?s1"
        by (simp add: count_body_def b l1 l2 incr)
      have sh: "shape n (bigram_counts ?s1)"
        using shape_update[OF "1.prems"(1) r0n] by simp
      have ok: "indices_ok n (char_to_idx ?s1)" using "1.prems"(2) by simp
      have hit: "hits ?d n r c ?b \<longleftrightarrow> r = r0 \<and> c = c0" for r c
        by (auto simp: hits_def b l1 l2 r0 c0)
      from "1.IH"[OF True body sh ok] obtain s' where
        s': "count_loop (i + 1) ?s1 = Inr s'" "bigrams s' = bigrams s"
            "char_to_idx s' = char_to_idx s" "shape n (bigram_counts s')"
            "\<forall>r < n. \<forall>c < n. bigram_counts s' ! r ! c = ?t' ! r ! c +
              of_nat (length (filter (hits ?d n r c) (drop (i + 1) (bigrams s))))"
        by auto
      have run: "count_loop i s = Inr s'"
        using s'(1) by (subst count_loop.simps) (simp add: True body)
      have cells: "bigram_counts s' ! r ! c = ?t ! r ! c +
              of_nat (length (filter (hits ?d n r c) (drop i (bigrams s))))"
        if "r < n" "c < n" for r c
        using that s'(5) cell_update[OF "1.prems"(1) r0n c0n that]
        by (simp add: drop hit)
      from run s'(2,3,4) cells show ?thesis by blast
    qed
  qed
qed

lemma count_bigrams_cells:
  assumes "indices_ok (length d) d"
  shows "\<exists>t. count_bigrams bs d = Inr t \<and> shape (length d) t \<and>
           (\<forall>r < length d. \<forall>c < length d.
              t ! r ! c = of_nat (length (filter (hits d (length d) r c) bs)))"
proof -
  let ?n = "length d"
  let ?s = "\<lparr>bigrams = bs, char_to_idx = d, bigram_counts = zeros ?n ?n\<rparr>"
  have "shape ?n (bigram_counts ?s)" "indices_ok ?n (char_to_idx ?s)"
    using assms by (simp_all add: shape_zeros)
  from count_loop_correct[OF this, of 0] obtain s' where
    s': "count_loop 0 ?s = Inr s'" "shape ?n (bigram_counts s')"
        "\<forall>r < ?n. \<forall>c < ?n. bigram_counts s' ! r ! c = bigram_counts ?s ! r ! c +
              of_nat (length (filter (hits (char_to_idx ?s) ?n r c) (drop 0 (bigrams ?s))))"
    by blast
  have "count_bigrams bs d = Inr (bigram_counts s')"
    by (simp add: count_bigrams_def count_bigrams_run_def s'(1))
  moreover have "bigram_counts s' ! r ! c = of_nat (length (filter (hits d ?n r c) bs))"
    if "r < ?n" "c < ?n" for r c
    using s'(3) that by (simp add: zeros_def)
  ultimately show ?thesis using s'(2) by blast
qed

lemma tensor_sum_cells:
  assumes "shape n t"
  shows "tensor_sum t = (\<Sum>r = 0 ..< n. \<Sum>c = 0 ..< n. sint (t ! r ! c))"
proof -
  have n: "length t = n" using assms by (simp add: shape_def)
  have row: "sum_list (map sint (t ! r)) = (\<Sum>c = 0 ..< n. sint (t ! r ! c))" if "r < n" for r
  proof -
    have "length (t ! r) = n" using assms that by (rule shape_nth)
    then show ?thesis by (simp add: sum_list_sum_nth)
  qed
  have "tensor_sum t = (\<Sum>r = 0 ..< n. sum_list (map sint (t ! r)))"
    by (simp add: tensor_sum_def sum_list_sum_nth n)
  also have "\<dots> = (\<Sum>r = 0 ..< n. \<Sum>c = 0 ..< n. sint (t ! r ! c))"
    by (rule sum.cong) (simp_all add: row)
  finally show ?thesis .
qed

lemma hits_in_vocab: "hits d n r c b \<Longrightarrow> in_vocab d b"
  by (auto simp: hits_def in_vocab_def split: option.splits)

lemma hits_unique:
  assumes "indices_ok n d" and "in_vocab d b"
  shows "\<exists>r0 < n. \<exists>c0 < n. \<forall>r c. hits d n r c b \<longleftrightarrow> r = r0 \<and> c = c0"
proof -
  from assms(2) obtain idx1 idx2 where
    l: "map_of d (fst b) = Some idx1" "map_of d (snd b) = Some idx2"
    by (auto simp: in_vocab_def)
  from lookup_index_ok[OF assms(1) l(1)] obtain r0 where r0: "norm_index n idx1 = Some r0" ..
  from lookup_index_ok[OF assms(1) l(2)] obtain c0 where c0: "norm_index n idx2 = Some c0" ..
  have "hits d n r c b \<longleftrightarrow> r = r0 \<and> c = c0" for r c
    by (auto simp: hits_def l r0 c0)
  moreover have "r0 < n" "c0 < n" using r0 c0 by (auto dest: norm_index_less)
  ultimately show ?thesis by blast
qed

lemma hits_total_one:
  assumes "indices_ok n d"
  shows "(\<Sum>r = 0 ..< n. \<Sum>c = 0 ..< n. if hits d n r c b then 1 else 0) =
         (if in_vocab d b then 1 else (0::nat))"
proof (cases "in_vocab d b")
  case False
  then have "\<not> hits d n r c b" for r c using hits_in_vocab by blast
  then show ?thesis using False by simp
next
  case True
  from hits_unique[OF assms True] obtain r0 c0 where
    rc: "r0 < n" "c0 < n" and h: "\<And>r c. hits d n r c b \<longleftrightarrow> r = r0 \<and> c = c0" by blast
  have "(\<Sum>r = 0 ..< n. \<Sum>c = 0 ..< n. if hits d n r c b then 1 else 0) =
        (\<Sum>r = 0 ..< n. if r = r0 then (\<Sum>c = 0 ..< n. if c = c0 then 1 else 0) else (0::nat))"
    by (intro sum.cong refl) (simp add: h)
  also have "\<dots> = 1" using rc by (simp add: sum.delta)
  finally show ?thesis using True by simp
qed

lemma hits_total:
  assumes "indices_ok n d"
  shows "(\<Sum>r = 0 ..< n. \<Sum>c = 0 ..< n. length (filter (hits d n r c) bs)) =
         length (filter (in_vocab d) bs)"
proof (induction bs)
  case Nil
  show ?case by simp
next
  case (Cons b bs)
  have "(\<Sum>r = 0 ..< n. \<Sum>c = 0 ..< n. length (filter (hits d n r c) (b # bs))) =
        (\<Sum>r = 0 ..< n. \<Sum>c = 0 ..< n.
           (if hits d n r c b then 1 else 0) + length (filter (hits d n r c) bs))"
    by (intro sum.cong refl) simp
  also have "\<dots> = (\<Sum>r = 0 ..< n. \<Sum>c = 0 ..< n. if hits d n r c b then 1 else 0) +
                  (\<Sum>r = 0 ..< n. \<Sum>c = 0 ..< n. length (filter (hits d n r c) bs))"
    by (simp add: sum.distrib)
  also have "\<dots> = (if in_vocab d b then 1 else 0) + length (filter (in_vocab d) bs)"
    by (simp only: hits_total_one[OF assms] Cons.IH)
  finally show ?case by simp
qed

lemma hits_le_total: "length (filter (hits d n r c) bs) \<le> length (filter (in_vocab d) bs)"
proof -
  have "filter (hits d n r c) bs = filter (hits d n r c) (filter (in_vocab d) bs)"
    by (auto simp: hits_in_vocab intro: filter_cong)
  then show ?thesis by (metis length_filter_le)
qed

lemma sint_of_nat_small: "k < 2 ^ 31 \<Longrightarrow> sint (of_nat k :: 32 word) = int k"
  by (simp add: signed_of_nat signed_take_bit_int_eq_self)

lemma tensor_sum_counts:
  assumes "indices_ok n d" and "shape n t"
    and "\<forall>r < n. \<forall>c < n. t ! r ! c = of_nat (length (filter (hits d n r c) bs))"
    and "length (filter (in_vocab d) bs) < 2 ^ 31"
  shows "tensor_sum t = int (length (filter (in_vocab d) bs))"
proof -
  have cell: "sint (t ! r ! c) = int (length (filter (hits d n r c) bs))"
    if "r < n" "c < n" for r c
  proof -
    have "length (filter (hits d n r c) bs) < 2 ^ 31"
      using hits_le_total[of d n r c bs] assms(4) by simp
    then show ?thesis using assms(3) that by (simp add: sint_of_nat_small)
  qed
  have "tensor_sum t = (\<Sum>r = 0 ..< n. \<Sum>c = 0 ..< n. sint (t ! r ! c))"
    by (rule tensor_sum_cells[OF assms(2)])
  also have "\<dots> = (\<Sum>r = 0 ..< n. \<Sum>c = 0 ..< n. int (length (filter (hits d n r c) bs)))"
    by (intro sum.cong refl) (simp add: cell)
  also have "\<dots> = int (\<Sum>r = 0 ..< n. \<Sum>c = 0 ..< n. length (filter (hits d n r c) bs))"
    by simp
  finally show ?thesis by (simp only: hits_total[OF assms(1)])
qed

lemma shape_eqI:
  assumes "shape n t" and "shape n t'"
    and "\<And>r c. r < n \<Longrightarrow> c < n \<Longrightarrow> t ! r ! c = t' ! r ! c"
  shows "t = t'"
proof (rule nth_equalityI)
  show "length t = length t'" using assms(1,2) by (simp add: shape_def)
next
  fix r assume "r < length t"
  then have r: "r < n" using assms(1) by (simp add: shape_def)
  have l: "length (t ! r) = n" "length (t' ! r) = n"
    using assms(1,2) r by (simp_all add: shape_nth)
  show "t ! r = t' ! r"
    by (rule nth_equalityI) (simp_all add: l assms(3) r)
qed

lemma count_bigrams_skips:
  assumes "indices_ok (length d) d"
  shows "count_bigrams (filter (in_vocab d) bs) d = count_bigrams bs d"
proof -
  let ?n = "length d"
  from count_bigrams_cells[OF assms, of bs] obtain t where
    t: "count_bigrams bs d = Inr t" "shape ?n t"
       "\<forall>r < ?n. \<forall>c < ?n. t ! r ! c = of_nat (length (filter (hits d ?n r c) bs))"
    by blast
  from count_bigrams_cells[OF assms, of "filter (in_vocab d) bs"] obtain t' where
    t': "count_bigrams (filter (in_vocab d) bs) d = Inr t'" "shape ?n t'"
       "\<forall>r < ?n. \<forall>c < ?n. t' ! r ! c =
          of_nat (length (filter (hits d ?n r c) (filter (in_vocab d) bs)))"
    by blast
  have "filter (hits d ?n r c) (filter (in_vocab d) bs) = filter (hits d ?n r c) bs" for r c
    by (auto simp: hits_in_vocab intro: filter_cong)
  with t(3) t'(3) have "t' ! r ! c = t ! r ! c" if "r < ?n" "c < ?n" for r c
    using that by simp
  with t'(2) t(2) have "t' = t" by (rule shape_eqI)
  with t(1) t'(1) show ?thesis by simp
qed

text \<open>
  C1. For every bigram list, and every dictionary whose indices all address a table of
  its size \<open>n = len(mapping)\<close> (from \<open>-n\<close> to \<open>n - 1\<close>, a negative index counting from the
  end), \<open>count_bigrams\<close> returns a table of \<open>n\<close> rows of \<open>n\<close> cells in which the cell
  \<open>(i, j)\<close> is, as a 32-bit number, the number of bigrams \<open>(a, b)\<close> of the list with \<open>a\<close>
  and \<open>b\<close> both in the dictionary, \<open>a\<close> at index \<open>i\<close> and \<open>b\<close> at index \<open>j\<close>; a bigram with
  a character outside the dictionary changes nothing. When fewer than \<open>2 ^ 31\<close> bigrams
  have both characters in the dictionary, every cell is that number itself, and the
  cells sum to the number of such bigrams.
\<close>

theorem count_bigrams_table:
  fixes bs :: "bigram list" and mapping :: "(pystr, int) dict"
  defines "n \<equiv> length mapping"
  assumes ok: "indices_ok n mapping"
  shows "\<exists>t. count_bigrams bs mapping = Inr t \<and> shape n t \<and>
           (\<forall>i < n. \<forall>j < n. t ! i ! j = of_nat (length (filter (hits mapping n i j) bs))) \<and>
           count_bigrams (filter (in_vocab mapping) bs) mapping = Inr t \<and>
           (length (filter (in_vocab mapping) bs) < 2 ^ 31 \<longrightarrow>
              (\<forall>i < n. \<forall>j < n. sint (t ! i ! j) = int (length (filter (hits mapping n i j) bs))) \<and>
              tensor_sum t = int (length (filter (in_vocab mapping) bs)))"
proof -
  from count_bigrams_cells[OF ok[unfolded n_def], of bs] obtain t where
    t: "count_bigrams bs mapping = Inr t" "shape n t"
       "\<forall>i < n. \<forall>j < n. t ! i ! j = of_nat (length (filter (hits mapping n i j) bs))"
    unfolding n_def by blast
  have skip: "count_bigrams (filter (in_vocab mapping) bs) mapping = Inr t"
    using count_bigrams_skips[OF ok[unfolded n_def], of bs] t(1) by simp
  have small: "(\<forall>i < n. \<forall>j < n. sint (t ! i ! j) = int (length (filter (hits mapping n i j) bs))) \<and>
              tensor_sum t = int (length (filter (in_vocab mapping) bs))"
    if lt: "length (filter (in_vocab mapping) bs) < 2 ^ 31"
  proof
    show "\<forall>i < n. \<forall>j < n. sint (t ! i ! j) = int (length (filter (hits mapping n i j) bs))"
    proof (intro allI impI)
      fix i j assume ij: "i < n" "j < n"
      have "length (filter (hits mapping n i j) bs) < 2 ^ 31"
        using hits_le_total[of mapping n i j bs] lt by simp
      then show "sint (t ! i ! j) = int (length (filter (hits mapping n i j) bs))"
        using t(3) ij by (simp add: sint_of_nat_small)
    qed
    show "tensor_sum t = int (length (filter (in_vocab mapping) bs))"
      by (rule tensor_sum_counts[OF ok t(2,3) lt])
  qed
  from t skip small show ?thesis by blast
qed

lemma count_bigrams_replicate:
  "count_bigrams (replicate N ([97], [97])) [([97], 0)] = Inr [[of_nat N]]"
proof -
  let ?d = "[([97 :: nat], 0 :: int)]"
  let ?b = "([97 :: nat], [97 :: nat])"
  have ok: "indices_ok (length ?d) ?d" by (simp add: indices_ok_def)
  from count_bigrams_cells[OF ok, of "replicate N ?b"] obtain t where
    t: "count_bigrams (replicate N ?b) ?d = Inr t" "shape 1 t"
       "t ! 0 ! 0 = of_nat (length (filter (hits ?d 1 0 0) (replicate N ?b)))"
    by auto
  have "hits ?d 1 0 0 ?b" by (simp add: hits_def norm_index_def)
  then have c: "t ! 0 ! 0 = of_nat N" using t(3) by simp
  from t(2) obtain row where row: "t = [row]" "length row = 1"
    by (cases t) (auto simp: shape_def)
  then obtain x where "row = [x]" by (cases row) auto
  with row c have "t = [[of_nat N]]" by simp
  with t(1) show ?thesis by simp
qed

theorem count_bigrams_table_counterexample:
  "count_bigrams [(str ''a'', str ''a'')] [(str ''a'', 5)] = Inl IndexError \<and>
   count_bigrams (replicate (2 ^ 31) (str ''a'', str ''a'')) [(str ''a'', 0)] =
     Inr [[- (2 ^ 31)]] \<and>
   tensor_sum [[- (2 ^ 31)]] = - (2 ^ 31) \<and>
   length (filter (in_vocab [(str ''a'', 0)]) (replicate (2 ^ 31) (str ''a'', str ''a''))) = 2 ^ 31"
proof -
  have 1: "count_bigrams [(str ''a'', str ''a'')] [(str ''a'', 5)] = Inl IndexError"
    by (simp add: count_bigrams_def count_bigrams_run_def count_loop.simps count_body_def
          tensor_incr_def norm_index_def zeros_def str_def)
  have "count_bigrams (replicate (2 ^ 31) (str ''a'', str ''a'')) [(str ''a'', 0)] =
     Inr [[of_nat (2 ^ 31)]]"
    unfolding str_def using count_bigrams_replicate[of "2 ^ 31"] by simp
  moreover have "(of_nat (2 ^ 31) :: 32 word) = - (2 ^ 31)" by simp
  ultimately have 2: "count_bigrams (replicate (2 ^ 31) (str ''a'', str ''a'')) [(str ''a'', 0)] =
     Inr [[- (2 ^ 31)]]" by (simp only:)
  have 3: "tensor_sum [[- (2 ^ 31)]] = - (2 ^ 31)" by (simp add: tensor_sum_def)
  have "in_vocab [(str ''a'', 0)] (str ''a'', str ''a'')" by (simp add: in_vocab_def)
  then have 4: "length (filter (in_vocab [(str ''a'', 0)])
      (replicate (2 ^ 31) (str ''a'', str ''a''))) = 2 ^ 31" by simp
  from 1 2 3 4 show ?thesis by blast
qed

theorem count_bigrams_table_witness:
  "indices_ok (length [(str ''a'', 0 :: int), (str ''b'', - 1)]) [(str ''a'', 0), (str ''b'', - 1)] \<and>
   count_bigrams [(str ''a'', str ''b''), (str ''a'', str ''c''), (str ''a'', str ''b'')]
     [(str ''a'', 0), (str ''b'', - 1)] = Inr [[0, 2], [0, 0]] \<and>
   tensor_sum [[0, 2], [0, 0]] = 2"
proof -
  let ?d = "[(str ''a'', 0 :: int), (str ''b'', - 1)]"
  let ?bs = "[(str ''a'', str ''b''), (str ''a'', str ''c''), (str ''a'', str ''b'')]"
  have ok: "indices_ok (length ?d) ?d" by (simp add: indices_ok_def)
  have v: "count_bigrams ?bs ?d = Inr [[0, 2], [0, 0]]"
    by (simp add: count_bigrams_def count_bigrams_run_def count_loop.simps count_body_def
          tensor_incr_def norm_index_def zeros_def str_def)
  have n: "length (filter (in_vocab ?d) ?bs) = 2" by (simp add: in_vocab_def str_def)
  from count_bigrams_table[OF ok, of ?bs] v n have "tensor_sum [[0, 2], [0, 0]] = 2"
    by auto
  with ok v show ?thesis by blast
qed

lemma count_bigrams_empty: "count_bigrams [] d = Inr (zeros (length d) (length d))"
  by (simp add: count_bigrams_def count_bigrams_run_def count_loop.simps Let_def)

text \<open>
  C9. An empty source has no record and gives no bigram, and for no bigram
  \<open>count_bigrams\<close> returns, for every dictionary, the table of \<open>len(mapping)\<close> rows of
  \<open>len(mapping)\<close> cells that are all zero.
\<close>

theorem empty_source_zero_table:
  "load_and_preprocess_data lower [] start_token end_token = [] \<and>
   count_bigrams (load_and_preprocess_data lower [] start_token end_token) mapping =
     Inr (replicate (length mapping) (replicate (length mapping) 0))"
  by (simp add: load_and_preprocess_data_def count_bigrams_empty zeros_def)

lemma indices_ok_char_to_index:
  assumes "valid_vocab alphabet st en"
  shows "indices_ok (length (char_to_index alphabet st en)) (char_to_index alphabet st en)"
proof -
  let ?d = "char_to_index alphabet st en"
  have l: "length ?d = length alphabet + 2"
    by (simp add: char_to_index_valid[OF assms] length_assignments)
  have "set (map snd ?d) = {0 ..< int (length alphabet + 2)}"
    by (simp only: values_char_to_index[OF assms] set_int_upt)
  then show ?thesis unfolding indices_ok_def l by simp
qed

text \<open>
  C10. For an alphabet without duplicates and without the sentinels, and two distinct
  sentinels, every index stored by \<open>char_to_index\<close> is at least 0 and less than the
  number of entries of the dictionary; with this dictionary \<open>count_bigrams\<close> raises for
  no bigram list and returns a table of that size.
\<close>

theorem char_to_index_in_bounds:
  fixes alphabet start_token end_token :: pystr
  defines "d \<equiv> char_to_index alphabet start_token end_token"
  assumes v: "valid_vocab alphabet start_token end_token"
  shows "(\<forall>i \<in> set (map snd d). 0 \<le> i \<and> i < int (length d)) \<and>
         (\<forall>c i. map_of d c = Some i \<longrightarrow> norm_index (length d) i = Some (nat i)) \<and>
         (\<forall>bs. \<exists>t. count_bigrams bs d = Inr t \<and> shape (length d) t)"
proof -
  have l: "length d = length alphabet + 2"
    by (simp add: d_def char_to_index_valid[OF v] length_assignments)
  have vals: "set (map snd d) = {0 ..< int (length alphabet + 2)}"
    unfolding d_def by (simp only: values_char_to_index[OF v] set_int_upt)
  have 1: "\<forall>i \<in> set (map snd d). 0 \<le> i \<and> i < int (length d)"
    unfolding vals l by simp
  have 2: "\<forall>c i. map_of d c = Some i \<longrightarrow> norm_index (length d) i = Some (nat i)"
  proof (intro allI impI)
    fix c i assume "map_of d c = Some i"
    then have "(c, i) \<in> set d" by (rule map_of_SomeD)
    then have "i \<in> set (map snd d)" by force
    with 1 have "0 \<le> i \<and> i < int (length d)" by blast
    then show "norm_index (length d) i = Some (nat i)" by (simp add: norm_index_def)
  qed
  have 3: "\<forall>bs. \<exists>t. count_bigrams bs d = Inr t \<and> shape (length d) t"
    using count_bigrams_cells[OF indices_ok_char_to_index[OF v]] unfolding d_def by blast
  from 1 2 3 show ?thesis by blast
qed

theorem char_to_index_in_bounds_witness:
  "valid_vocab (str ''ab'') (str ''-'') (str ''.'') \<and>
   char_to_index (str ''ab'') (str ''-'') (str ''.'') =
     [(str ''-'', 0), (str ''a'', 1), (str ''b'', 2), (str ''.'', 3)] \<and>
   (\<exists>t. count_bigrams [(str ''b'', str ''.'')] (char_to_index (str ''ab'') (str ''-'') (str ''.'')) =
      Inr t)"
proof -
  have v: "valid_vocab (str ''ab'') (str ''-'') (str ''.'')"
    by (simp add: valid_vocab_def str_def)
  have e: "char_to_index (str ''ab'') (str ''-'') (str ''.'') =
     [(str ''-'', 0), (str ''a'', 1), (str ''b'', 2), (str ''.'', 3)]"
    by (simp add: char_to_index_def str_def enumerate_eq_zip upt_rec)
  from char_to_index_in_bounds[OF v] have
    "\<exists>t. count_bigrams [(str ''b'', str ''.'')] (char_to_index (str ''ab'') (str ''-'') (str ''.'')) =
      Inr t"
    by blast
  with v e show ?thesis by blast
qed

lemma count_body_frame:
  "(count_body b s = Inr s' \<longrightarrow> bigrams s' = bigrams s \<and> char_to_idx s' = char_to_idx s) \<and>
   (count_body b s = Inl (e, s') \<longrightarrow> s' = s)"
  by (auto simp: count_body_def split: prod.splits option.splits sum.splits)

lemma count_loop_frame:
  "(count_loop i s = Inr s' \<longrightarrow> bigrams s' = bigrams s \<and> char_to_idx s' = char_to_idx s) \<and>
   (count_loop i s = Inl (e, s') \<longrightarrow> bigrams s' = bigrams s \<and> char_to_idx s' = char_to_idx s)"
proof (induction i s rule: count_loop.induct)
  case (1 i s)
  show ?case
  proof (cases "i < length (bigrams s)")
    case False
    then show ?thesis by (subst (1 2) count_loop.simps) auto
  next
    case True
    show ?thesis
    proof (cases "count_body (bigrams s ! i) s")
      case (Inl es)
      then show ?thesis
        using count_body_frame[of "bigrams s ! i" s s' e]
        by (subst (1 2) count_loop.simps) (auto simp: True)
    next
      case (Inr s1)
      from count_body_frame[of "bigrams s ! i" s s1] Inr
      have f: "bigrams s1 = bigrams s" "char_to_idx s1 = char_to_idx s" by auto
      from "1.IH"[OF True Inr] f show ?thesis
        by (subst (1 2) count_loop.simps) (simp add: True Inr)
    qed
  qed
qed

lemma valid_vocab_main:
  "valid_vocab (str ''abcdefghijklmnopqrstuvwxyz '') (str ''-'') (str ''.'')"
  by (simp add: valid_vocab_def str_def)

section \<open>Runs of the counting function and of the script\<close>

lemma count_exec_sound: "count_exec i s out \<Longrightarrow> count_loop i s = out"
proof (induction rule: count_exec.induct)
  case (exhausted i s)
  then show ?case by (subst count_loop.simps) simp
next
  case (skipped i s char1 char2 out)
  then have "count_body (bigrams s ! i) s = Inr s"
    by (auto simp: count_body_def split: option.splits)
  with skipped show ?case by (subst count_loop.simps) simp
next
  case (counted i s char1 char2 idx1 idx2 t out)
  then have "count_body (bigrams s ! i) s = Inr (s\<lparr>bigram_counts := t\<rparr>)"
    by (simp add: count_body_def)
  with counted show ?case by (subst count_loop.simps) simp
next
  case (raised i s char1 char2 idx1 idx2 e)
  then have "count_body (bigrams s ! i) s = Inl (e, s)"
    by (simp add: count_body_def)
  with raised show ?case by (subst count_loop.simps) simp
qed

lemma count_exec_total: "count_exec i s (count_loop i s)"
proof (induction i s rule: count_loop.induct)
  case (1 i s)
  show ?case
  proof (cases "i < length (bigrams s)")
    case False
    then have "count_loop i s = Inr s" by (subst count_loop.simps) simp
    with False show ?thesis by (simp add: count_exec.exhausted)
  next
    case True
    obtain char1 char2 where b: "bigrams s ! i = (char1, char2)" by (cases "bigrams s ! i")
    show ?thesis
    proof (cases "map_of (char_to_idx s) char1 = None \<or> map_of (char_to_idx s) char2 = None")
      case none: True
      then have body: "count_body (bigrams s ! i) s = Inr s"
        by (auto simp: count_body_def b split: option.splits)
      then have eq: "count_loop i s = count_loop (i + 1) s"
        by (subst count_loop.simps) (simp add: True)
      from "1.IH"[OF True body] show ?thesis
        unfolding eq by (rule count_exec.skipped[OF True b none])
    next
      case False
      then obtain idx1 idx2 where
        l: "map_of (char_to_idx s) char1 = Some idx1" "map_of (char_to_idx s) char2 = Some idx2"
        by auto
      show ?thesis
      proof (cases "tensor_incr (bigram_counts s) idx1 idx2")
        case (Inl e)
        then have "count_body (bigrams s ! i) s = Inl (e, s)"
          by (simp add: count_body_def b l)
        then have "count_loop i s = Inl (e, s)"
          by (subst count_loop.simps) (simp add: True)
        then show ?thesis using count_exec.raised[OF True b l Inl] by simp
      next
        case (Inr t)
        then have body: "count_body (bigrams s ! i) s = Inr (s\<lparr>bigram_counts := t\<rparr>)"
          by (simp add: count_body_def b l)
        then have eq: "count_loop i s = count_loop (i + 1) (s\<lparr>bigram_counts := t\<rparr>)"
          by (subst count_loop.simps) (simp add: True)
        from "1.IH"[OF True body] show ?thesis
          unfolding eq by (rule count_exec.counted[OF True b l Inr])
      qed
    qed
  qed
qed

lemma count_bigrams_exec_iff:
  "count_bigrams_exec s out \<longleftrightarrow>
   out = count_loop 0 (s\<lparr>bigram_counts := zeros (length (char_to_idx s)) (length (char_to_idx s))\<rparr>)"
  by (auto simp: count_bigrams_exec.simps count_exec_total dest: count_exec_sound)

lemma count_bigrams_exec_run:
  "count_bigrams_exec \<lparr>bigrams = bs, char_to_idx = d, bigram_counts = t0\<rparr> out \<longleftrightarrow>
   out = count_bigrams_run bs d"
  by (simp add: count_bigrams_exec_iff count_bigrams_run_def Let_def)

lemma count_bigrams_exec_frame:
  assumes "count_bigrams_exec s out"
  shows "(\<forall>s'. out = Inr s' \<longrightarrow> bigrams s' = bigrams s \<and> char_to_idx s' = char_to_idx s) \<and>
         (\<forall>e s'. out = Inl (e, s') \<longrightarrow> bigrams s' = bigrams s \<and> char_to_idx s' = char_to_idx s)"
proof -
  let ?s0 = "s\<lparr>bigram_counts := zeros (length (char_to_idx s)) (length (char_to_idx s))\<rparr>"
  have out: "count_loop 0 ?s0 = out" using assms by (simp add: count_bigrams_exec_iff)
  have a: "bigrams s' = bigrams s \<and> char_to_idx s' = char_to_idx s" if "out = Inr s'" for s'
    using count_loop_frame[of 0 ?s0 s'] that out by simp
  have b: "bigrams s' = bigrams s \<and> char_to_idx s' = char_to_idx s" if "out = Inl (e, s')" for e s'
    using count_loop_frame[of 0 ?s0 s' e] that out by simp
  from a b show ?thesis by blast
qed

lemma count_bigrams_exec_value:
  "count_bigrams_exec s out \<Longrightarrow>
   count_bigrams (bigrams s) (char_to_idx s) =
     (case out of Inl (e, _) \<Rightarrow> Inl e | Inr s' \<Rightarrow> Inr (bigram_counts s'))"
  by (cases s) (simp add: count_bigrams_exec_iff count_bigrams_def count_bigrams_run_def Let_def)

lemma count_bigrams_exec_inputs:
  assumes "count_bigrams_exec s1 out1" and "count_bigrams_exec s2 out2"
    and "bigrams s1 = bigrams s2" and "char_to_idx s1 = char_to_idx s2"
  shows "out1 = out2"
proof -
  let ?n = "length (char_to_idx s2)"
  have "s1\<lparr>bigram_counts := zeros ?n ?n\<rparr> = s2\<lparr>bigram_counts := zeros ?n ?n\<rparr>"
    using assms(3,4) by (intro count_state.equality) simp_all
  with assms show ?thesis by (simp add: count_bigrams_exec_iff)
qed

lemma length_main_mapping:
  "length (char_to_index (str ''abcdefghijklmnopqrstuvwxyz '') (str ''-'') (str ''.'')) = 29"
  by (simp add: char_to_index_valid[OF valid_vocab_main] length_assignments) (simp add: str_def)

text \<open>
  C8. Every call of \<open>count_bigrams\<close> has an outcome, a table or a raise, and two calls
  given the same bigram list and the same dictionary have the same outcome, whatever
  else the two states held: the outcome is a function of the two inputs, and it is the
  value of \<open>count_bigrams\<close>. At the end of a call, returned or raised, the list and the
  dictionary are the ones it was given. For the script, the lines of the file fix one
  table, that of the bigrams of these lines under the script's dictionary: every call on
  them returns it, every run of the script binds it whatever the global variables held
  before, and a second run on the state left by the first leaves that state as it is.
\<close>

theorem count_bigrams_deterministic:
  fixes lower :: "pystr \<Rightarrow> pystr" and lines :: "pystr list"
  defines "mapping \<equiv> char_to_index (str ''abcdefghijklmnopqrstuvwxyz '') (str ''-'') (str ''.'')"
  defines "bigram_list \<equiv> load_and_preprocess_data lower lines (str ''-'') (str ''.'')"
  shows
  "(\<exists>out. count_bigrams_exec s out) \<and>
   (\<forall>out1 out2. count_bigrams_exec s1 out1 \<and> count_bigrams_exec s2 out2 \<and>
      bigrams s1 = bigrams s2 \<and> char_to_idx s1 = char_to_idx s2 \<longrightarrow> out1 = out2) \<and>
   (\<forall>s'. count_bigrams_exec s (Inr s') \<longrightarrow>
      bigrams s' = bigrams s \<and> char_to_idx s' = char_to_idx s \<and>
      count_bigrams (bigrams s) (char_to_idx s) = Inr (bigram_counts s')) \<and>
   (\<forall>e s'. count_bigrams_exec s (Inl (e, s')) \<longrightarrow>
      bigrams s' = bigrams s \<and> char_to_idx s' = char_to_idx s \<and>
      count_bigrams (bigrams s) (char_to_idx s) = Inl e) \<and>
   (\<exists>t. count_bigrams bigram_list mapping = Inr t \<and> shape 29 t \<and>
      (\<forall>i < 29. \<forall>j < 29.
         t ! i ! j = of_nat (length (filter (hits mapping 29 i j) bigram_list))) \<and>
      (\<forall>t0 out. count_bigrams_exec
           \<lparr>bigrams = bigram_list, char_to_idx = mapping, bigram_counts = t0\<rparr> out \<longrightarrow>
         (\<exists>s'. out = Inr s' \<and> bigram_counts s' = t)) \<and>
      (\<forall>g. \<exists>g1. main_block lower lines g = Inr g1 \<and> g_bigram_counts g1 = Some t \<and>
         g_bigrams g1 = Some bigram_list \<and> g_char_to_idx g1 = Some mapping \<and>
         main_block lower lines g1 = Inr g1))"
proof -
  have 1: "\<exists>out. count_bigrams_exec s out" by (simp add: count_bigrams_exec_iff)
  have 2: "\<forall>out1 out2. count_bigrams_exec s1 out1 \<and> count_bigrams_exec s2 out2 \<and>
      bigrams s1 = bigrams s2 \<and> char_to_idx s1 = char_to_idx s2 \<longrightarrow> out1 = out2"
    using count_bigrams_exec_inputs by blast
  have 3: "\<forall>s'. count_bigrams_exec s (Inr s') \<longrightarrow>
      bigrams s' = bigrams s \<and> char_to_idx s' = char_to_idx s \<and>
      count_bigrams (bigrams s) (char_to_idx s) = Inr (bigram_counts s')"
  proof (intro allI impI)
    fix s' assume e: "count_bigrams_exec s (Inr s')"
    from count_bigrams_exec_frame[OF e] count_bigrams_exec_value[OF e]
    show "bigrams s' = bigrams s \<and> char_to_idx s' = char_to_idx s \<and>
      count_bigrams (bigrams s) (char_to_idx s) = Inr (bigram_counts s')" by simp
  qed
  have 4: "\<forall>e s'. count_bigrams_exec s (Inl (e, s')) \<longrightarrow>
      bigrams s' = bigrams s \<and> char_to_idx s' = char_to_idx s \<and>
      count_bigrams (bigrams s) (char_to_idx s) = Inl e"
  proof (intro allI impI)
    fix e s' assume e: "count_bigrams_exec s (Inl (e, s'))"
    from count_bigrams_exec_frame[OF e] count_bigrams_exec_value[OF e]
    show "bigrams s' = bigrams s \<and> char_to_idx s' = char_to_idx s \<and>
      count_bigrams (bigrams s) (char_to_idx s) = Inl e" by simp
  qed
  have ok: "indices_ok (length mapping) mapping"
    unfolding mapping_def by (rule indices_ok_char_to_index[OF valid_vocab_main])
  have n: "length mapping = 29" unfolding mapping_def by (rule length_main_mapping)
  from count_bigrams_cells[OF ok, of bigram_list] obtain t where
    t: "count_bigrams bigram_list mapping = Inr t" "shape 29 t"
       "\<forall>i < 29. \<forall>j < 29. t ! i ! j = of_nat (length (filter (hits mapping 29 i j) bigram_list))"
    unfolding n by blast
  have run: "\<exists>s'. out = Inr s' \<and> bigram_counts s' = t"
    if "count_bigrams_exec \<lparr>bigrams = bigram_list, char_to_idx = mapping, bigram_counts = t0\<rparr> out"
    for t0 out
    using count_bigrams_exec_value[OF that] t(1) by (auto split: sum.splits)
  have main: "main_block lower lines g =
      Inr \<lparr>g_char_to_idx = Some mapping, g_bigrams = Some bigram_list,
           g_bigram_counts = Some t, g_idx_to_char = Some (index_to_char mapping)\<rparr>" for g
    using t(1) by (cases g) (simp add: main_block_def Let_def mapping_def bigram_list_def)
  have 5: "\<exists>g1. main_block lower lines g = Inr g1 \<and> g_bigram_counts g1 = Some t \<and>
         g_bigrams g1 = Some bigram_list \<and> g_char_to_idx g1 = Some mapping \<and>
         main_block lower lines g1 = Inr g1" for g
    by (simp add: main)
  have last: "\<exists>t. count_bigrams bigram_list mapping = Inr t \<and> shape 29 t \<and>
      (\<forall>i < 29. \<forall>j < 29.
         t ! i ! j = of_nat (length (filter (hits mapping 29 i j) bigram_list))) \<and>
      (\<forall>t0 out. count_bigrams_exec
           \<lparr>bigrams = bigram_list, char_to_idx = mapping, bigram_counts = t0\<rparr> out \<longrightarrow>
         (\<exists>s'. out = Inr s' \<and> bigram_counts s' = t)) \<and>
      (\<forall>g. \<exists>g1. main_block lower lines g = Inr g1 \<and> g_bigram_counts g1 = Some t \<and>
         g_bigrams g1 = Some bigram_list \<and> g_char_to_idx g1 = Some mapping \<and>
         main_block lower lines g1 = Inr g1)"
  proof (intro exI[of _ t] conjI allI impI)
    show "count_bigrams bigram_list mapping = Inr t" by (rule t(1))
    show "shape 29 t" by (rule t(2))
    show "t ! i ! j = of_nat (length (filter (hits mapping 29 i j) bigram_list))"
      if "i < 29" "j < 29" for i j using t(3) that by blast
    show "\<exists>s'. out = Inr s' \<and> bigram_counts s' = t"
      if "count_bigrams_exec \<lparr>bigrams = bigram_list, char_to_idx = mapping, bigram_counts = t0\<rparr> out"
      for t0 out using that by (rule run)
    show "\<exists>g1. main_block lower lines g = Inr g1 \<and> g_bigram_counts g1 = Some t \<and>
         g_bigrams g1 = Some bigram_list \<and> g_char_to_idx g1 = Some mapping \<and>
         main_block lower lines g1 = Inr g1" for g by (rule 5)
  qed
  show ?thesis by (rule conjI[OF 1 conjI[OF 2 conjI[OF 3 conjI[OF 4 last]]]])
qed

theorem count_bigrams_deterministic_witness:
  "count_bigrams_exec
     \<lparr>bigrams = [(str ''a'', str ''b'')], char_to_idx = [(str ''a'', 0), (str ''b'', 1)],
      bigram_counts = [[7]]\<rparr>
     (Inr \<lparr>bigrams = [(str ''a'', str ''b'')], char_to_idx = [(str ''a'', 0), (str ''b'', 1)],
          bigram_counts = [[0, 1], [0, 0]]\<rparr>) \<and>
   count_bigrams_exec
     \<lparr>bigrams = [(str ''a'', str ''b'')], char_to_idx = [(str ''a'', 0), (str ''b'', 1)],
      bigram_counts = []\<rparr>
     (Inr \<lparr>bigrams = [(str ''a'', str ''b'')], char_to_idx = [(str ''a'', 0), (str ''b'', 1)],
          bigram_counts = [[0, 1], [0, 0]]\<rparr>) \<and>
   count_bigrams [(str ''a'', str ''b'')] [(str ''a'', 0), (str ''b'', 1)] = Inr [[0, 1], [0, 0]] \<and>
   count_bigrams_exec
     \<lparr>bigrams = [(str ''a'', str ''a'')], char_to_idx = [(str ''a'', 5)], bigram_counts = []\<rparr>
     (Inl (IndexError,
        \<lparr>bigrams = [(str ''a'', str ''a'')], char_to_idx = [(str ''a'', 5)],
         bigram_counts = [[0]]\<rparr>)) \<and>
   count_bigrams [(str ''a'', str ''a'')] [(str ''a'', 5)] = Inl IndexError"
proof -
  let ?bs = "[(str ''a'', str ''b'')]"
  let ?d = "[(str ''a'', 0 :: int), (str ''b'', 1)]"
  let ?s1 = "\<lparr>bigrams = ?bs, char_to_idx = ?d, bigram_counts = [[7 :: 32 word]]\<rparr>"
  let ?s2 = "\<lparr>bigrams = ?bs, char_to_idx = ?d, bigram_counts = ([] :: tensor)\<rparr>"
  let ?r = "\<lparr>bigrams = ?bs, char_to_idx = ?d, bigram_counts = [[0, 1], [0, 0 :: 32 word]]\<rparr>"
  let ?s3 = "\<lparr>bigrams = [(str ''a'', str ''a'')], char_to_idx = [(str ''a'', 5 :: int)],
             bigram_counts = ([] :: tensor)\<rparr>"
  let ?r3 = "\<lparr>bigrams = [(str ''a'', str ''a'')], char_to_idx = [(str ''a'', 5 :: int)],
             bigram_counts = [[0 :: 32 word]]\<rparr>"
  note total = count_bigrams_deterministic[THEN conjunct1]
  note same = count_bigrams_deterministic[THEN conjunct2, THEN conjunct1]
  note returns = count_bigrams_deterministic[THEN conjunct2, THEN conjunct2, THEN conjunct1]
  note raises = count_bigrams_deterministic[THEN conjunct2, THEN conjunct2, THEN conjunct2,
      THEN conjunct1]
  have e1: "count_bigrams_exec ?s1 (Inr ?r)"
    by (simp add: count_bigrams_exec_iff count_loop.simps count_body_def
          tensor_incr_def norm_index_def zeros_def str_def)
  from total[of ?s2] obtain out where o: "count_bigrams_exec ?s2 out" ..
  have "bigrams ?s1 = bigrams ?s2" "char_to_idx ?s1 = char_to_idx ?s2" by simp_all
  with e1 o same[of ?s1 ?s2] have "Inr ?r = out" by blast
  with o have e2: "count_bigrams_exec ?s2 (Inr ?r)" by simp
  from e1 returns[of ?s1] have
    "count_bigrams (bigrams ?s1) (char_to_idx ?s1) = Inr (bigram_counts ?r)" by blast
  then have c1: "count_bigrams ?bs ?d = Inr [[0, 1], [0, 0]]" by simp
  have e3: "count_bigrams_exec ?s3 (Inl (IndexError, ?r3))"
    by (simp add: count_bigrams_exec_iff count_loop.simps count_body_def
          tensor_incr_def norm_index_def zeros_def str_def)
  with raises[of ?s3] have
    "count_bigrams (bigrams ?s3) (char_to_idx ?s3) = Inl IndexError" by blast
  then have c3: "count_bigrams [(str ''a'', str ''a'')] [(str ''a'', 5)] = Inl IndexError" by simp
  from e1 e2 c1 e3 c3 show ?thesis by (intro conjI)
qed

end
